theory Spec2Isabelle
  imports Main "HOL-Library.Word"
begin

section \<open>Data model\<close>

text \<open>
  The embedding follows \<^verbatim>\<open>cppcore/src/system/Foundation.cpp\<close>.

  \<^item> \<^verbatim>\<open>Cartesian\<close> (a vector of three floats) is an abstract type \<open>'v\<close>; the two
    operations the code uses on it, addition and multiplication by an integer that was
    cast to float, are passed in a record \<open>vec_ops\<close>, with no law assumed.
  \<^item> \<^verbatim>\<open>Index3D\<close> / \<^verbatim>\<open>Array3i\<close> is a triple of integers. The source computes on
    32-bit \<^verbatim>\<open>int\<close>. In \<^verbatim>\<open>find_bounds\<close>, the constructor from a shape and
    \<^verbatim>\<open>generate_positions\<close>, where the padding of the bounds, the sizes, the number of sites
    and the length of the position array leave that range on inputs as plain as a shape
    without vertices, the model reduces the result to 32 bits with \<open>wrap32\<close>, as the
    compiled code does. Signed overflow is undefined behaviour in the source, and the
    theorems on these functions state the range in which it does not occur. The index
    arithmetic on sites and hopping rules is on \<open>int\<close>, exact as long as a site index plus
    a relative index, and a flat index, stay within \<^verbatim>\<open>int\<close>.
  \<^item> \<^verbatim>\<open>int16_t\<close> is \<open>16 word\<close>, read with \<open>sint\<close>; the narrowing cast and
    \<^verbatim>\<open>-= 1\<close> wrap around.
\<close>

type_synonym Index3D = "int \<times> int \<times> int"

type_synonym int16 = "16 word"

record 'v vec_ops =
  vadd :: "'v \<Rightarrow> 'v \<Rightarrow> 'v"
  vscale :: "int \<Rightarrow> 'v \<Rightarrow> 'v"

text \<open>
  A hopping rule: the source reads \<^verbatim>\<open>relative_index\<close>; the target sublattice is the
  other field the spec gives a rule.
\<close>

record hopping =
  relative_index :: Index3D
  to_sublattice :: nat

record 'v sublattice =
  offset :: 'v
  hoppings :: "hopping list"

record 'v lattice =
  vectors :: "'v list"
  sublattices :: "'v sublattice list"
  min_neighbours :: int

record 'v shape =
  vertices :: "'v list"
  shape_offset :: 'v
  contains :: "'v list \<Rightarrow> bool list"

record 'v foundation =
  lattice :: "'v lattice"
  size3 :: Index3D
  size_n :: int
  num_sites :: int
  positions :: "'v list"
  is_valid :: "bool list"

record site =
  index :: Index3D
  sublattice :: nat
  idx :: nat

record hamiltonian_indices =
  indices :: "int list"
  num_valid_sites :: int

definition nth3 :: "Index3D \<Rightarrow> nat \<Rightarrow> int" where
  "nth3 v i = (case v of (a, b, c) \<Rightarrow> if i = 0 then a else if i = 1 then b else c)"

definition add3 :: "Index3D \<Rightarrow> Index3D \<Rightarrow> Index3D" where
  "add3 u v = (case u of (a, b, c) \<Rightarrow> case v of (x, y, z) \<Rightarrow> (a + x, b + y, c + z))"

definition sub3 :: "Index3D \<Rightarrow> Index3D \<Rightarrow> Index3D" where
  "sub3 u v = (case u of (a, b, c) \<Rightarrow> case v of (x, y, z) \<Rightarrow> (a - x, b - y, c - z))"

definition prod3 :: "Index3D \<Rightarrow> int" where
  "prod3 v = (case v of (a, b, c) \<Rightarrow> a * b * c)"

text \<open>
  \<^verbatim>\<open>std::numeric_limits<int>::max()\<close> and \<^verbatim>\<open>min()\<close>, for a 32-bit \<^verbatim>\<open>int\<close>, and the
  value that a 32-bit \<^verbatim>\<open>int\<close> holds after a computation whose exact result is \<open>x\<close>:
  the two's-complement reading of the low 32 bits.
\<close>

definition INT_MAX :: int where "INT_MAX = 2147483647"

definition INT_MIN :: int where "INT_MIN = - 2147483648"

definition wrap32 :: "int \<Rightarrow> int" where
  "wrap32 x = (x + 2147483648) mod 4294967296 - 2147483648"

definition map3 :: "(int \<Rightarrow> int) \<Rightarrow> Index3D \<Rightarrow> Index3D" where
  "map3 f v = (case v of (a, b, c) \<Rightarrow> (f a, f b, f c))"

section \<open>Sites and iteration\<close>

text \<open>
  \<^verbatim>\<open>Site\<close>, the Foundation iterator and \<^verbatim>\<open>Site::for_each_neighbour\<close> are declared in
  \<^verbatim>\<open>Foundation.hpp\<close>, which is missing; the source file uses them through
  \<^verbatim>\<open>get_index\<close>, \<^verbatim>\<open>get_sublattice\<close>, \<^verbatim>\<open>get_idx\<close>, \<^verbatim>\<open>is_valid\<close>, \<^verbatim>\<open>set_valid\<close>, the
  range-for loop and \<^verbatim>\<open>for_each_neighbour\<close>.
\<close>

text \<open>
  Modelled from the spec: the flat index of a site (computed in \<^verbatim>\<open>Foundation.hpp\<close>, which
  is missing), \<open>flat = ((a*size.b + b)*size.c + c)*size_n + sublattice\<close>.
\<close>

definition calc_idx :: "('v, 'x) foundation_scheme \<Rightarrow> Index3D \<Rightarrow> nat \<Rightarrow> nat" where
  "calc_idx F i sub =
     (case i of (a, b, c) \<Rightarrow> case size3 F of (sa, sb, sc) \<Rightarrow>
        nat (((a * sb + b) * sc + c) * size_n F + int sub))"

text \<open>
  Modelled from the spec: the site at a flat index, which the Foundation iterator
  (\<^verbatim>\<open>Foundation.hpp\<close>, missing) yields; the inverse of the flat-index bijection.
\<close>

definition site_at :: "('v, 'x) foundation_scheme \<Rightarrow> nat \<Rightarrow> site" where
  "site_at F i =
     (case size3 F of (sa, sb, sc) \<Rightarrow>
        let n = nat (size_n F); c = nat sc; b = nat sb in
        \<lparr>index = (int (i div (n * c * b)), int ((i div (n * c)) mod b), int ((i div n) mod c)),
         sublattice = i mod n,
         idx = i\<rparr>)"

text \<open>
  Modelled from the spec: \<^verbatim>\<open>for (auto& site : foundation)\<close> visits the sites in
  flat-index order; \<^verbatim>\<open>begin()\<close> is at 0 and \<^verbatim>\<open>end()\<close> at \<open>num_sites\<close> in the source.
\<close>

definition sites :: "('v, 'x) foundation_scheme \<Rightarrow> site list" where
  "sites F = map (site_at F) [0..<nat (num_sites F)]"

text \<open>
  The test of \<^verbatim>\<open>count_neighbors\<close> on a target index:
  \<^verbatim>\<open>any_of(index < 0) || any_of(index >= foundation.size.array())\<close>.
\<close>

definition out_of_box :: "('v, 'x) foundation_scheme \<Rightarrow> Index3D \<Rightarrow> bool" where
  "out_of_box F i =
     (case i of (a, b, c) \<Rightarrow> case size3 F of (sa, sb, sc) \<Rightarrow>
        (a < 0 \<or> b < 0 \<or> c < 0) \<or> (a \<ge> sa \<or> b \<ge> sb \<or> c \<ge> sc))"

definition target_index :: "site \<Rightarrow> hopping \<Rightarrow> Index3D" where
  "target_index s h = add3 (index s) (relative_index h)"

definition site_hoppings :: "('v, 'x) foundation_scheme \<Rightarrow> site \<Rightarrow> hopping list" where
  "site_hoppings F s = hoppings (sublattices (lattice F) ! sublattice s)"

text \<open>
  Modelled from the spec: the neighbour that a hopping rule leads to (a \<^verbatim>\<open>Site\<close> built in
  \<^verbatim>\<open>Foundation.hpp\<close>, missing): the 3D index plus the relative index, on the target
  sublattice of the rule.
\<close>

definition shifted :: "('v, 'x) foundation_scheme \<Rightarrow> site \<Rightarrow> hopping \<Rightarrow> site" where
  "shifted F s h =
     \<lparr>index = target_index s h, sublattice = to_sublattice h,
      idx = calc_idx F (target_index s h) (to_sublattice h)\<rparr>"

text \<open>
  Modelled from the spec: the sites that \<^verbatim>\<open>Site::for_each_neighbour\<close>
  (\<^verbatim>\<open>Foundation.hpp\<close>, missing) passes to its argument, in the order of the hopping rules
  of the sublattice; a target outside \<open>[0, size)\<close> is no neighbour.
\<close>

definition neighbours :: "('v, 'x) foundation_scheme \<Rightarrow> site \<Rightarrow> site list" where
  "neighbours F s =
     map (shifted F s)
       (filter (\<lambda>h. \<not> out_of_box F (target_index s h)) (site_hoppings F s))"

section \<open>BoundsFinder\<close>

text \<open>
  \<^verbatim>\<open>find_bounds\<close>. The column-pivoting QR solve of \<open>A*v = p\<close> followed by
  \<^verbatim>\<open>cast<int>()\<close> is floating-point linear algebra; the model takes its result as the
  parameter \<open>solve_cast\<close>: from the lattice vectors and a vertex, component \<open>i\<close> of the
  solution after the cast, a 32-bit \<^verbatim>\<open>int\<close> read with \<open>sint\<close>.
  \<^verbatim>\<open>x.head(n)\<close> addresses the first \<open>n\<close> components of \<open>x\<close>. The padding
  \<^verbatim>\<open>-= 1\<close> / \<^verbatim>\<open>+= 1\<close> is 32-bit arithmetic.
\<close>

definition constant3 :: "int \<Rightarrow> Index3D" where
  "constant3 x = (x, x, x)"

definition head_map :: "nat \<Rightarrow> (int \<Rightarrow> int) \<Rightarrow> Index3D \<Rightarrow> Index3D" where
  "head_map n f v =
     (case v of (a, b, c) \<Rightarrow>
        (if 0 < n then f a else a, if 1 < n then f b else b, if 2 < n then f c else c))"

definition head_assign :: "nat \<Rightarrow> (nat \<Rightarrow> 32 word) \<Rightarrow> Index3D \<Rightarrow> Index3D" where
  "head_assign n r v =
     (case v of (a, b, c) \<Rightarrow>
        (if 0 < n then sint (r 0) else a, if 1 < n then sint (r 1) else b,
         if 2 < n then sint (r 2) else c))"

definition select3 :: "(int \<Rightarrow> int \<Rightarrow> bool) \<Rightarrow> Index3D \<Rightarrow> Index3D \<Rightarrow> Index3D" where
  "select3 cond v w =
     (case v of (a, b, c) \<Rightarrow> case w of (x, y, z) \<Rightarrow>
        (if cond a x then a else x, if cond b y then b else y, if cond c z then c else z))"

definition lattice_coordinates ::
    "('v list \<Rightarrow> 'v \<Rightarrow> nat \<Rightarrow> 32 word) \<Rightarrow> ('v, 'y) lattice_scheme \<Rightarrow> 'v \<Rightarrow> Index3D" where
  "lattice_coordinates solve_cast L point =
     head_assign (length (vectors L)) (solve_cast (vectors L) point) (constant3 0)"

definition track_bounds ::
    "('v list \<Rightarrow> 'v \<Rightarrow> nat \<Rightarrow> 32 word) \<Rightarrow> ('v, 'y) lattice_scheme \<Rightarrow> 'v
      \<Rightarrow> Index3D \<times> Index3D \<Rightarrow> Index3D \<times> Index3D" where
  "track_bounds solve_cast L point bounds =
     (case bounds of (lower_bound, upper_bound) \<Rightarrow>
        let v = lattice_coordinates solve_cast L point in
        (select3 (<) v lower_bound, select3 (>) v upper_bound))"

definition find_bounds ::
    "('v list \<Rightarrow> 'v \<Rightarrow> nat \<Rightarrow> 32 word) \<Rightarrow> ('v, 'x) shape_scheme \<Rightarrow> ('v, 'y) lattice_scheme
      \<Rightarrow> Index3D \<times> Index3D" where
  "find_bounds solve_cast S L =
     (let ndim = length (vectors L) in
      case fold (track_bounds solve_cast L) (vertices S) (constant3 INT_MAX, constant3 INT_MIN)
      of (lower_bound, upper_bound) \<Rightarrow>
        (head_map ndim (\<lambda>x. wrap32 (x - 1)) lower_bound,
         head_map ndim (\<lambda>x. wrap32 (x + 1)) upper_bound))"

definition vertex_coordinates ::
    "('v list \<Rightarrow> 'v \<Rightarrow> nat \<Rightarrow> 32 word) \<Rightarrow> ('v, 'x) shape_scheme \<Rightarrow> ('v, 'y) lattice_scheme
      \<Rightarrow> nat \<Rightarrow> int set" where
  "vertex_coordinates solve_cast S L i =
     (\<lambda>p. sint (solve_cast (vectors L) p i)) ` set (vertices S)"

section \<open>PositionGenerator\<close>

text \<open>
  \<^verbatim>\<open>generate_positions\<close>. The array is allocated with \<open>num_sites\<close> entries and filled
  through the running index \<^verbatim>\<open>idx\<close> by four nested loops.

  \<^item> \<open>num_sites\<close> is \<^verbatim>\<open>static_cast<int>(size.prod() * num_sublattices)\<close>: the product of the
    three sizes in \<^verbatim>\<open>int\<close>, times a \<^verbatim>\<open>size_t\<close>, narrowed to \<^verbatim>\<open>int\<close>; the narrowing
    keeps the low 32 bits, of which the wider intermediate product changes nothing.
  \<^item> The allocation leaves the entries uninitialised; the model starts from copies of
    \<open>origin\<close>. For a negative \<open>num_sites\<close>, which the source hands to the allocator, the model
    gives the empty array.
  \<^item> A write past the end of the array is undefined behaviour in the source and is dropped
    by the model (\<open>xs[i := v]\<close> with \<open>i\<close> out of range is \<open>xs\<close>).

  The theorem on this function assumes that the exact number of sites is not negative and
  fits \<^verbatim>\<open>int\<close>; then the array has that many entries and every write is inside.
\<close>

definition write_position :: "'v \<Rightarrow> 'v list \<times> nat \<Rightarrow> 'v list \<times> nat" where
  "write_position p st = (case st of (array, i) \<Rightarrow> (array[i := p], i + 1))"

definition generate_positions ::
    "'v vec_ops \<Rightarrow> 'v \<Rightarrow> Index3D \<Rightarrow> ('v, 'y) lattice_scheme \<Rightarrow> 'v list" where
  "generate_positions ops origin sz L =
     (let num_sublattices = length (sublattices L);
          num_sites = wrap32 (wrap32 (prod3 sz) * int num_sublattices);
          array = replicate (nat num_sites) origin
      in fst (fold (\<lambda>a.
           let pa = vadd ops origin (vscale ops (int a) (vectors L ! 0)) in
           fold (\<lambda>b.
             let pb = (if b = 0 then pa else vadd ops pa (vscale ops (int b) (vectors L ! 1))) in
             fold (\<lambda>c.
               let pc = (if c = 0 then pb else vadd ops pb (vscale ops (int c) (vectors L ! 2))) in
               fold (\<lambda>sub. write_position (vadd ops pc (offset (sublattices L ! sub))))
                 [0..<num_sublattices])
               [0..<nat (nth3 sz 2)])
             [0..<nat (nth3 sz 1)])
           [0..<nat (nth3 sz 0)] (array, 0)))"

text \<open>
  The position of the site \<open>(a, b, c, sub)\<close> in closed form: \<open>origin + a*vec0\<close>, then
  \<open>b*vec1\<close> added when \<open>b \<noteq> 0\<close>, then \<open>c*vec2\<close> added when \<open>c \<noteq> 0\<close>, then the offset
  of the sublattice.
\<close>

definition position_of ::
    "'v vec_ops \<Rightarrow> 'v \<Rightarrow> ('v, 'y) lattice_scheme \<Rightarrow> nat \<Rightarrow> nat \<Rightarrow> nat \<Rightarrow> nat \<Rightarrow> 'v" where
  "position_of ops origin L a b c sub =
     (let pa = vadd ops origin (vscale ops (int a) (vectors L ! 0));
          pb = (if b = 0 then pa else vadd ops pa (vscale ops (int b) (vectors L ! 1)));
          pc = (if c = 0 then pb else vadd ops pb (vscale ops (int c) (vectors L ! 2)))
      in vadd ops pc (offset (sublattices L ! sub)))"

text \<open>
  The position as the specification writes it, with every term added whatever its factor:
  \<open>origin + a*vec0 + b*vec1 + c*vec2 + offset_of_sublattice(sub)\<close>.
\<close>

definition position_sum ::
    "'v vec_ops \<Rightarrow> 'v \<Rightarrow> ('v, 'y) lattice_scheme \<Rightarrow> nat \<Rightarrow> nat \<Rightarrow> nat \<Rightarrow> nat \<Rightarrow> 'v" where
  "position_sum ops origin L a b c sub =
     vadd ops
       (vadd ops
          (vadd ops (vadd ops origin (vscale ops (int a) (vectors L ! 0)))
             (vscale ops (int b) (vectors L ! 1)))
          (vscale ops (int c) (vectors L ! 2)))
       (offset (sublattices L ! sub))"

section \<open>EdgeTrimmer: counting\<close>

text \<open>
  \<^verbatim>\<open>count_neighbors\<close>: for every site, \<^verbatim>\<open>static_cast<int16_t>(hoppings.size())\<close>, less one
  for each hopping rule whose target index is outside the box.
\<close>

definition count_site :: "('v, 'x) foundation_scheme \<Rightarrow> site \<Rightarrow> int16" where
  "count_site F s =
     (let hs = site_hoppings F s in
      fold (\<lambda>h num_neighbors.
              if out_of_box F (target_index s h) then num_neighbors - 1 else num_neighbors)
        hs (word_of_nat (length hs)))"

definition count_neighbors :: "('v, 'x) foundation_scheme \<Rightarrow> int16 list" where
  "count_neighbors F = map (count_site F) (sites F)"

definition outside_hoppings :: "('v, 'x) foundation_scheme \<Rightarrow> site \<Rightarrow> hopping list" where
  "outside_hoppings F s = filter (\<lambda>h. out_of_box F (target_index s h)) (site_hoppings F s)"

section \<open>EdgeTrimmer: clearing\<close>

text \<open>
  \<^verbatim>\<open>clear_neighbors\<close> and \<^verbatim>\<open>trim_edges\<close>. The immutable part of the Foundation (lattice
  and sizes) is the argument \<open>F\<close>; the state that the source mutates in place, the array
  \<open>is_valid\<close> of the Foundation and the array \<open>neighbor_count\<close>, is threaded as a pair.
  The body of the lambda passed to \<^verbatim>\<open>for_each_neighbour\<close> is \<open>visit_neighbors\<close>, run over
  the in-box neighbours in the order of the hopping rules.

  A read outside the arrays is undefined behaviour in the source. The model treats a site
  whose flat index is outside \<open>is_valid\<close> as not valid; the theorems assume the Foundation
  invariant, under which every index is inside.
\<close>

type_synonym trim_state = "bool list \<times> int16 list"

definition site_is_valid :: "bool list \<Rightarrow> site \<Rightarrow> bool" where
  "site_is_valid V s = (idx s < length V \<and> V ! idx s)"

function clear_neighbors :: "('v, 'x) foundation_scheme \<Rightarrow> site \<Rightarrow> trim_state \<Rightarrow> trim_state"
  and visit_neighbors ::
    "('v, 'x) foundation_scheme \<Rightarrow> site \<Rightarrow> site list \<Rightarrow> trim_state \<Rightarrow> trim_state"
where
  "clear_neighbors F s (V, C) =
     (if C ! idx s = 0 then (V, C)
      else let r = visit_neighbors F s (neighbours F s) (V, C)
           in (fst r, (snd r)[idx s := 0]))"
| "visit_neighbors F s [] (V, C) = (V, C)"
| "visit_neighbors F s (n # ns) (V, C) =
     (if \<not> site_is_valid V n then visit_neighbors F s ns (V, C)
      else let C1 = C[idx n := C ! idx n - 1] in
           if sint (C1 ! idx n) < min_neighbours (lattice F)
           then visit_neighbors F s ns (clear_neighbors F n (V[idx n := False], C1))
           else visit_neighbors F s ns (V, C1))"
  by pat_completeness auto

text \<open>
  The recursion ends because a recursive call of \<^verbatim>\<open>clear_neighbors\<close> follows the
  invalidation of a site that was valid: the number of valid sites decreases.
\<close>

definition num_valid :: "bool list \<Rightarrow> nat" where
  "num_valid V = length (filter id V)"

lemma num_valid_invalidate:
  assumes "i < length V" "V ! i"
  shows "num_valid (V[i := False]) < num_valid V"
proof -
  have e: "V = take i V @ V ! i # drop (Suc i) V"
    using assms(1) by (rule id_take_nth_drop)
  have "num_valid (take i V @ V ! i # drop (Suc i) V)
        = num_valid (take i V) + 1 + num_valid (drop (Suc i) V)"
    using assms(2) by (simp add: num_valid_def)
  with e have "num_valid V = num_valid (take i V) + 1 + num_valid (drop (Suc i) V)"
    by simp
  moreover have "num_valid (V[i := False]) = num_valid (take i V) + num_valid (drop (Suc i) V)"
    using assms(1) by (simp add: num_valid_def upd_conv_take_nth_drop)
  ultimately show ?thesis by simp
qed

lemma clear_neighbors_num_valid_partial:
  "clear_neighbors_visit_neighbors_dom (Inl (F, s, st)) \<Longrightarrow>
     num_valid (fst (clear_neighbors F s st)) \<le> num_valid (fst st)"
  "clear_neighbors_visit_neighbors_dom (Inr (F, s, ns, st)) \<Longrightarrow>
     num_valid (fst (visit_neighbors F s ns st)) \<le> num_valid (fst st)"
proof (induction F s st and F s ns st rule: clear_neighbors_visit_neighbors.pinduct)
  case (1 F s V C)
  then show ?case by (simp add: clear_neighbors.psimps Let_def)
next
  case (2 F s V C)
  then show ?case by (simp add: visit_neighbors.psimps)
next
  case (3 F s n ns V C)
  show ?case
  proof (cases "site_is_valid V n")
    case False
    with 3 show ?thesis by (simp add: visit_neighbors.psimps)
  next
    case True
    then have lt: "num_valid (V[idx n := False]) < num_valid V"
      by (simp add: site_is_valid_def num_valid_invalidate)
    show ?thesis
    proof (cases "sint (C[idx n := C ! idx n - 1] ! idx n) < min_neighbours (lattice F)")
      case below: True
      from 3(3) [OF _ refl below] True
      have a: "num_valid (fst (clear_neighbors F n (V[idx n := False], C[idx n := C ! idx n - 1])))
               \<le> num_valid (V[idx n := False])"
        by simp
      from 3(4) [OF _ refl below] True
      have b: "num_valid (fst (visit_neighbors F s ns
                 (clear_neighbors F n (V[idx n := False], C[idx n := C ! idx n - 1]))))
               \<le> num_valid (fst (clear_neighbors F n (V[idx n := False], C[idx n := C ! idx n - 1])))"
        by simp
      from a b lt True below 3(1) show ?thesis
        by (simp add: visit_neighbors.psimps Let_def)
    next
      case above: False
      from 3(5) [OF _ refl above] True above 3(1) show ?thesis
        by (simp add: visit_neighbors.psimps Let_def)
    qed
  qed
qed

termination clear_neighbors
proof (relation "(\<lambda>x. case x of
          Inl (F, s, st) \<Rightarrow> num_valid (fst st)
        | Inr (F, s, ns, st) \<Rightarrow> num_valid (fst st))
      <*mlex*> measure (\<lambda>x. case x of
          Inl (F, s, st) \<Rightarrow> Suc (length (neighbours F s))
        | Inr (F, s, ns, st) \<Rightarrow> length ns)", goal_cases)
  case 1
  show ?case by (simp add: wf_mlex)
next
  case (2 F s V C)
  show ?case by (simp add: mlex_iff)
next
  case (3 F s n ns V C)
  show ?case by (simp add: mlex_iff)
next
  case (4 F s n ns V C x)
  from 4(1) have "num_valid (V[idx n := False]) < num_valid V"
    by (simp add: site_is_valid_def num_valid_invalidate)
  then show ?case by (simp add: mlex_iff)
next
  case (5 F s n ns V C x)
  from 5(1) have "num_valid (V[idx n := False]) < num_valid V"
    by (simp add: site_is_valid_def num_valid_invalidate)
  moreover have "num_valid (fst (clear_neighbors F n (V[idx n := False], x)))
        \<le> num_valid (V[idx n := False])"
    using clear_neighbors_num_valid_partial(1) [OF 5(4)] by simp
  ultimately show ?case by (simp add: mlex_iff)
next
  case (6 F s n ns V C x)
  show ?case by (simp add: mlex_iff)
qed

text \<open>
  \<^verbatim>\<open>trim_edges\<close>: count once, then call \<^verbatim>\<open>clear_neighbors\<close> on every site that is invalid
  when the loop reaches it.
\<close>

definition trim_step :: "('v, 'x) foundation_scheme \<Rightarrow> site \<Rightarrow> trim_state \<Rightarrow> trim_state" where
  "trim_step F s st = (if \<not> site_is_valid (fst st) s then clear_neighbors F s st else st)"

definition trim_edges :: "('v, 'x) foundation_scheme \<Rightarrow> ('v, 'x) foundation_scheme" where
  "trim_edges F =
     F\<lparr>is_valid := fst (fold (trim_step F) (sites F) (is_valid F, count_neighbors F))\<rparr>"

section \<open>Foundation construction\<close>

text \<open>
  \<^verbatim>\<open>Foundation::Foundation(Lattice const&, Shape const&)\<close>. \<open>shape_box\<close> is the Foundation
  when the constructor reaches its last statement, the call of \<^verbatim>\<open>trim_edges\<close>; the sizes,
  \<^verbatim>\<open>static_cast<int>(lattice.sublattices.size())\<close> and the number of sites are 32-bit
  \<^verbatim>\<open>int\<close>.
\<close>

definition shape_origin ::
    "'v vec_ops \<Rightarrow> ('v, 'y) lattice_scheme \<Rightarrow> ('v, 'x) shape_scheme \<Rightarrow> Index3D \<Rightarrow> 'v" where
  "shape_origin ops L S lower =
     fold (\<lambda>i p. vadd ops p (vscale ops (nth3 lower i) (vectors L ! i)))
       [0..<length (vectors L)] (shape_offset S)"

definition shape_box ::
    "'v vec_ops \<Rightarrow> ('v list \<Rightarrow> 'v \<Rightarrow> nat \<Rightarrow> 32 word) \<Rightarrow> 'v lattice \<Rightarrow> ('v, 'x) shape_scheme
      \<Rightarrow> 'v foundation" where
  "shape_box ops solve_cast L S =
     (let bounds = find_bounds solve_cast S L;
          sz = map3 wrap32 (add3 (map3 wrap32 (sub3 (snd bounds) (fst bounds))) (constant3 1));
          n = wrap32 (int (length (sublattices L)));
          origin = shape_origin ops L S (fst bounds);
          ps = generate_positions ops origin sz L
      in \<lparr>lattice = L, size3 = sz, size_n = n, num_sites = wrap32 (wrap32 (prod3 sz) * n),
          positions = ps, is_valid = contains S ps\<rparr>)"

definition Foundation_from_shape ::
    "'v vec_ops \<Rightarrow> ('v list \<Rightarrow> 'v \<Rightarrow> nat \<Rightarrow> 32 word) \<Rightarrow> 'v lattice \<Rightarrow> ('v, 'x) shape_scheme
      \<Rightarrow> 'v foundation" where
  "Foundation_from_shape ops solve_cast L S = trim_edges (shape_box ops solve_cast L S)"

section \<open>HamiltonianIndices\<close>

text \<open>
  \<^verbatim>\<open>indices(ArrayX<int>::Constant(num_sites, -1)), num_valid_sites(0)\<close>, then
  \<^verbatim>\<open>for (int i = 0; i < num_sites; ++i) if (is_valid[i]) indices[i] = num_valid_sites++;\<close>
\<close>

definition assign_index :: "bool list \<Rightarrow> nat \<Rightarrow> hamiltonian_indices \<Rightarrow> hamiltonian_indices" where
  "assign_index valid i h =
     (if valid ! i
      then h\<lparr>indices := (indices h)[i := num_valid_sites h],
             num_valid_sites := num_valid_sites h + 1\<rparr>
      else h)"

definition HamiltonianIndices :: "('v, 'x) foundation_scheme \<Rightarrow> hamiltonian_indices" where
  "HamiltonianIndices F =
     fold (assign_index (is_valid F)) [0..<nat (num_sites F)]
       \<lparr>indices = replicate (nat (num_sites F)) (- 1), num_valid_sites = 0\<rparr>"

text \<open>The number of valid sites with flat index strictly below \<open>i\<close>.\<close>

definition valid_before :: "bool list \<Rightarrow> nat \<Rightarrow> nat" where
  "valid_before valid i = length (filter id (take i valid))"

section \<open>Example inputs\<close>

text \<open>
  A one-dimensional chain over the integers: one basis vector of length 1, one sublattice,
  hopping rules to the relative indices +1 and -1.
\<close>

definition int_ops :: "int vec_ops" where
  "int_ops = \<lparr>vadd = (+), vscale = (*)\<rparr>"

definition chain_lattice :: "int lattice" where
  "chain_lattice =
     \<lparr>vectors = [1],
      sublattices = [\<lparr>offset = 0,
         hoppings = [\<lparr>relative_index = (1, 0, 0), to_sublattice = 0\<rparr>,
                     \<lparr>relative_index = (- 1, 0, 0), to_sublattice = 0\<rparr>]\<rparr>],
      min_neighbours = 1\<rparr>"

text \<open>Four cells of the chain, the second site invalid.\<close>

definition chain_example :: "int foundation" where
  "chain_example =
     \<lparr>lattice = chain_lattice, size3 = (4, 1, 1), size_n = 1, num_sites = 4,
      positions = [0, 1, 2, 3], is_valid = [True, False, True, True]\<rparr>"

text \<open>A single site whose sublattice has 32768 hopping rules, all onto the site itself.\<close>

definition wide_example :: "int foundation" where
  "wide_example =
     \<lparr>lattice = \<lparr>vectors = [1],
         sublattices = [\<lparr>offset = 0,
            hoppings = replicate 32768 \<lparr>relative_index = (0, 0, 0), to_sublattice = 0\<rparr>\<rparr>],
         min_neighbours = 1\<rparr>,
      size3 = (1, 1, 1), size_n = 1, num_sites = 1, positions = [0], is_valid = [True]\<rparr>"

text \<open>The segment from 0 to 3 on the chain; in one dimension the solve is the identity.\<close>

definition segment_example :: "int shape" where
  "segment_example =
     \<lparr>vertices = [0, 3], shape_offset = 0, contains = map (\<lambda>p. 0 \<le> p \<and> p \<le> 3)\<rparr>"

definition no_vertices_example :: "int shape" where
  "no_vertices_example = \<lparr>vertices = [], shape_offset = 0, contains = map (\<lambda>p. True)\<rparr>"

definition chain_solve :: "int list \<Rightarrow> int \<Rightarrow> nat \<Rightarrow> 32 word" where
  "chain_solve vs p i = word_of_int p"

text \<open>
  Five cells of the chain, the first and the third site invalid. Clearing either of them
  takes one neighbour from the second site, which falls below the minimum at the second
  of the two calls, whichever comes first.
\<close>

definition gap_example :: "int foundation" where
  "gap_example =
     \<lparr>lattice = chain_lattice, size3 = (5, 1, 1), size_n = 1, num_sites = 5,
      positions = [0, 1, 2, 3, 4], is_valid = [False, True, False, True, True]\<rparr>"


text \<open>
  A lattice with three basis vectors and two sublattices, over the integers: the
  coordinates along the three axes and the sublattice can be read off the digits of a
  position.
\<close>

definition box_lattice :: "int lattice" where
  "box_lattice =
     \<lparr>vectors = [100, 10, 1],
      sublattices = [\<lparr>offset = 0, hoppings = []\<rparr>, \<lparr>offset = 5, hoppings = []\<rparr>],
      min_neighbours = 0\<rparr>"

text \<open>
  One coordinate of float arithmetic with the special values of IEEE 754: a finite value
  (an integer, so that nothing is rounded), the two infinities and NaN. NaN absorbs, the
  sum of the two infinities is NaN, and the product of zero and an infinity is NaN.
\<close>

datatype fval = Finite int | PosInf | NegInf | NaN

fun fadd :: "fval \<Rightarrow> fval \<Rightarrow> fval" where
  "fadd (Finite x) (Finite y) = Finite (x + y)"
| "fadd NaN y = NaN"
| "fadd x NaN = NaN"
| "fadd PosInf NegInf = NaN"
| "fadd NegInf PosInf = NaN"
| "fadd PosInf y = PosInf"
| "fadd NegInf y = NegInf"
| "fadd x PosInf = PosInf"
| "fadd x NegInf = NegInf"

fun fscale :: "int \<Rightarrow> fval \<Rightarrow> fval" where
  "fscale k (Finite x) = Finite (k * x)"
| "fscale k NaN = NaN"
| "fscale k PosInf = (if k = 0 then NaN else if 0 < k then PosInf else NegInf)"
| "fscale k NegInf = (if k = 0 then NaN else if 0 < k then NegInf else PosInf)"

definition float_ops :: "fval vec_ops" where
  "float_ops = \<lparr>vadd = fadd, vscale = fscale\<rparr>"

text \<open>A lattice whose second basis vector is infinite.\<close>

definition unbounded_lattice :: "fval lattice" where
  "unbounded_lattice =
     \<lparr>vectors = [Finite 1, PosInf, Finite 1],
      sublattices = [\<lparr>offset = Finite 0, hoppings = []\<rparr>],
      min_neighbours = 0\<rparr>"

section \<open>Enumeration of the generated positions\<close>

text \<open>
  Writing a list into an array from an index on, and the lists that the loops of
  \<^verbatim>\<open>generate_positions\<close> write: one unit cell, one row of cells along the third axis,
  one plane, the whole box.
\<close>

fun write_block :: "'v list \<Rightarrow> nat \<Rightarrow> 'v list \<Rightarrow> 'v list" where
  "write_block ps i [] = ps"
| "write_block ps i (x # xs) = write_block (ps[i := x]) (Suc i) xs"

definition cell_positions :: "'v vec_ops \<Rightarrow> ('v, 'y) lattice_scheme \<Rightarrow> 'v \<Rightarrow> 'v list" where
  "cell_positions ops L pc =
     map (\<lambda>sub. vadd ops pc (offset (sublattices L ! sub))) [0..<length (sublattices L)]"

definition row_positions ::
    "'v vec_ops \<Rightarrow> ('v, 'y) lattice_scheme \<Rightarrow> Index3D \<Rightarrow> 'v \<Rightarrow> 'v list" where
  "row_positions ops L sz pb =
     concat (map (\<lambda>c. cell_positions ops L
                        (if c = 0 then pb else vadd ops pb (vscale ops (int c) (vectors L ! 2))))
               [0..<nat (nth3 sz 2)])"

definition plane_positions ::
    "'v vec_ops \<Rightarrow> ('v, 'y) lattice_scheme \<Rightarrow> Index3D \<Rightarrow> 'v \<Rightarrow> 'v list" where
  "plane_positions ops L sz pa =
     concat (map (\<lambda>b. row_positions ops L sz
                        (if b = 0 then pa else vadd ops pa (vscale ops (int b) (vectors L ! 1))))
               [0..<nat (nth3 sz 1)])"

definition grid_positions ::
    "'v vec_ops \<Rightarrow> 'v \<Rightarrow> Index3D \<Rightarrow> ('v, 'y) lattice_scheme \<Rightarrow> 'v list" where
  "grid_positions ops origin sz L =
     concat (map (\<lambda>a. plane_positions ops L sz
                        (vadd ops origin (vscale ops (int a) (vectors L ! 0))))
               [0..<nat (nth3 sz 0)])"

section \<open>Well-formed Foundations and the flat-index bijection\<close>

text \<open>
  The invariant of a Foundation: non-negative sizes, \<open>size_n\<close> the number of sublattices,
  \<open>num_sites\<close> the product, \<open>is_valid\<close> of that length, and every hopping rule leading to a
  sublattice that exists.
\<close>

definition wf_foundation :: "('v, 'x) foundation_scheme \<Rightarrow> bool" where
  "wf_foundation F =
     ((case size3 F of (sa, sb, sc) \<Rightarrow> 0 \<le> sa \<and> 0 \<le> sb \<and> 0 \<le> sc)
      \<and> size_n F = int (length (sublattices (lattice F)))
      \<and> num_sites F = prod3 (size3 F) * size_n F
      \<and> list_all (\<lambda>sl. list_all (\<lambda>h. to_sublattice h < length (sublattices (lattice F)))
                          (hoppings sl))
            (sublattices (lattice F))
      \<and> length (is_valid F) = nat (num_sites F))"

section \<open>EdgeTrimmer: the set of sites that a pass invalidates\<close>

text \<open>
  The neighbour indices of a site; the number of processed hopping rules that hit a site,
  given how far each site has advanced through its neighbours; the number of decrements
  after which a site is invalidated, and the count it then has; and, inductively, the
  sites that end up invalid.
\<close>

definition nbr :: "('v, 'x) foundation_scheme \<Rightarrow> nat \<Rightarrow> nat list" where
  "nbr F i = map idx (neighbours F (site_at F i))"

definition hits :: "('v, 'x) foundation_scheme \<Rightarrow> (nat \<Rightarrow> nat) \<Rightarrow> nat \<Rightarrow> nat" where
  "hits F p v = (\<Sum>j<nat (num_sites F). count_list (take (p j) (nbr F j)) v)"

definition trig :: "('v, 'x) foundation_scheme \<Rightarrow> int16 list \<Rightarrow> nat \<Rightarrow> nat \<Rightarrow> bool" where
  "trig F C0 v d = (1 \<le> d \<and> sint (C0 ! v - word_of_nat d) < min_neighbours (lattice F))"

definition first_trig :: "('v, 'x) foundation_scheme \<Rightarrow> int16 list \<Rightarrow> nat \<Rightarrow> nat" where
  "first_trig F C0 v = (LEAST d. trig F C0 v d)"

definition clear_value ::
    "('v, 'x) foundation_scheme \<Rightarrow> bool list \<Rightarrow> int16 list \<Rightarrow> nat \<Rightarrow> int16" where
  "clear_value F V0 C0 v =
     (if V0 ! v then C0 ! v - word_of_nat (first_trig F C0 v) else C0 ! v)"

definition fires :: "('v, 'x) foundation_scheme \<Rightarrow> bool list \<Rightarrow> int16 list \<Rightarrow> nat \<Rightarrow> bool" where
  "fires F V0 C0 v = (clear_value F V0 C0 v \<noteq> 0)"

definition done_at :: "('v, 'x) foundation_scheme \<Rightarrow> bool list \<Rightarrow> int16 list \<Rightarrow> nat \<Rightarrow> nat" where
  "done_at F V0 C0 j = (if fires F V0 C0 j then length (nbr F j) else 0)"

inductive_set doomed :: "('v, 'x) foundation_scheme \<Rightarrow> bool list \<Rightarrow> int16 list \<Rightarrow> nat set"
  for F :: "('v, 'x) foundation_scheme" and V0 :: "bool list" and C0 :: "int16 list"
where
  init: "v < nat (num_sites F) \<Longrightarrow> \<not> V0 ! v \<Longrightarrow> v \<in> doomed F V0 C0"
| step: "v < nat (num_sites F) \<Longrightarrow> V0 ! v \<Longrightarrow>
         (\<forall>j < nat (num_sites F). q j \<le> length (nbr F j)) \<Longrightarrow>
         (\<forall>j < nat (num_sites F). 0 < q j \<longrightarrow> j \<in> doomed F V0 C0 \<and> fires F V0 C0 j) \<Longrightarrow>
         trig F C0 v (hits F q v) \<Longrightarrow> v \<in> doomed F V0 C0"

text \<open>
  The invariant of the pass, relative to the state \<open>(V0, C0)\<close> it started from, with \<open>p j\<close>
  the number of neighbours that the invalid site \<open>j\<close> has gone through: a valid site was
  valid at the start, its count is the initial count less the processed hopping rules that
  hit it, and no prefix of these decrements takes it below the minimum; an invalid site is
  in the inductive set; an invalid site with count 0 has gone through all its neighbours if
  its count was not 0 when it was cleared, and through none otherwise.
\<close>

definition trim_inv ::
    "('v, 'x) foundation_scheme \<Rightarrow> bool list \<Rightarrow> int16 list \<Rightarrow> trim_state \<Rightarrow> (nat \<Rightarrow> nat) \<Rightarrow> bool" where
  "trim_inv F V0 C0 st p =
     (length (fst st) = nat (num_sites F) \<and> length (snd st) = nat (num_sites F)
      \<and> (\<forall>j < nat (num_sites F). p j \<le> length (nbr F j))
      \<and> (\<forall>j < nat (num_sites F). 0 < p j \<longrightarrow> \<not> fst st ! j \<and> fires F V0 C0 j)
      \<and> (\<forall>v < nat (num_sites F). fst st ! v \<longrightarrow>
            V0 ! v \<and> snd st ! v = C0 ! v - word_of_nat (hits F p v)
            \<and> (\<forall>d. 1 \<le> d \<and> d \<le> hits F p v \<longrightarrow> \<not> trig F C0 v d))
      \<and> (\<forall>v < nat (num_sites F). \<not> fst st ! v \<longrightarrow> v \<in> doomed F V0 C0)
      \<and> (\<forall>j < nat (num_sites F). \<not> fst st ! j \<and> snd st ! j = 0 \<longrightarrow> p j = done_at F V0 C0 j))"

text \<open>
  What a call on site \<open>t\<close> leaves alone: no site becomes valid, an invalid site other than
  \<open>t\<close> keeps its count and its progress, and a site that the call invalidates ends with
  count 0.
\<close>

definition trim_frame ::
    "('v, 'x) foundation_scheme \<Rightarrow> nat \<Rightarrow> trim_state \<Rightarrow> (nat \<Rightarrow> nat) \<Rightarrow> trim_state \<Rightarrow> (nat \<Rightarrow> nat)
      \<Rightarrow> bool" where
  "trim_frame F t st p st' p' =
     ((\<forall>j < nat (num_sites F). fst st' ! j \<longrightarrow> fst st ! j)
      \<and> (\<forall>j < nat (num_sites F). \<not> fst st ! j \<and> j \<noteq> t \<longrightarrow>
            snd st' ! j = snd st ! j \<and> p' j = p j)
      \<and> (\<forall>j < nat (num_sites F). fst st ! j \<and> \<not> fst st' ! j \<longrightarrow> snd st' ! j = 0))"

section \<open>EdgeTrimmer: pre- and postconditions of the recursion\<close>

text \<open>
  What the two functions need and give: \<^verbatim>\<open>clear_neighbors\<close> is called on an invalid site
  that has not started and whose count is the one it is cleared with; the loop over the
  neighbours runs on an invalid site with a nonzero count, on the neighbours it has not
  gone through yet.
\<close>

definition clear_pre ::
    "('v, 'x) foundation_scheme \<Rightarrow> bool list \<Rightarrow> int16 list \<Rightarrow> site \<Rightarrow> trim_state \<Rightarrow> (nat \<Rightarrow> nat)
      \<Rightarrow> bool" where
  "clear_pre F V0 C0 s st p =
     (wf_foundation F \<and> idx s < nat (num_sites F) \<and> site_at F (idx s) = s
      \<and> trim_inv F V0 C0 st p \<and> \<not> fst st ! idx s \<and> p (idx s) = 0
      \<and> snd st ! idx s = clear_value F V0 C0 (idx s))"

definition clear_post ::
    "('v, 'x) foundation_scheme \<Rightarrow> bool list \<Rightarrow> int16 list \<Rightarrow> site \<Rightarrow> trim_state \<Rightarrow> (nat \<Rightarrow> nat)
      \<Rightarrow> trim_state \<Rightarrow> bool" where
  "clear_post F V0 C0 s st p st' =
     (\<exists>p'. trim_inv F V0 C0 st' p' \<and> trim_frame F (idx s) st p st' p'
           \<and> snd st' ! idx s = 0)"

definition visit_pre ::
    "('v, 'x) foundation_scheme \<Rightarrow> bool list \<Rightarrow> int16 list \<Rightarrow> site \<Rightarrow> site list \<Rightarrow> trim_state
      \<Rightarrow> (nat \<Rightarrow> nat) \<Rightarrow> bool" where
  "visit_pre F V0 C0 s ns st p =
     (wf_foundation F \<and> idx s < nat (num_sites F) \<and> site_at F (idx s) = s
      \<and> trim_inv F V0 C0 st p \<and> \<not> fst st ! idx s \<and> fires F V0 C0 (idx s)
      \<and> snd st ! idx s \<noteq> 0
      \<and> map idx ns = drop (p (idx s)) (nbr F (idx s))
      \<and> (\<forall>x \<in> set ns. idx x < nat (num_sites F) \<and> site_at F (idx x) = x))"

definition visit_post ::
    "('v, 'x) foundation_scheme \<Rightarrow> bool list \<Rightarrow> int16 list \<Rightarrow> site \<Rightarrow> trim_state \<Rightarrow> (nat \<Rightarrow> nat)
      \<Rightarrow> trim_state \<Rightarrow> bool" where
  "visit_post F V0 C0 s st p st' =
     (\<exists>p'. trim_inv F V0 C0 st' p' \<and> trim_frame F (idx s) st p st' p'
           \<and> p' (idx s) = length (nbr F (idx s)) \<and> snd st' ! idx s = snd st ! idx s)"

section \<open>EdgeTrimmer: the pass over a list of sites\<close>

text \<open>
  The loop of \<^verbatim>\<open>trim_edges\<close> over an arbitrary list of sites; \<^verbatim>\<open>trim_edges\<close> is the case of
  the list of all sites in flat-index order.
\<close>

definition trim_edges_in_order ::
    "('v, 'x) foundation_scheme \<Rightarrow> site list \<Rightarrow> ('v, 'x) foundation_scheme" where
  "trim_edges_in_order F order =
     F\<lparr>is_valid := fst (fold (trim_step F) order (is_valid F, count_neighbors F))\<rparr>"

text \<open>
  Between two steps of the loop, an invalid site whose count is not 0 is one that was
  invalid from the start and has not been reached.
\<close>

definition top_inv ::
    "('v, 'x) foundation_scheme \<Rightarrow> bool list \<Rightarrow> int16 list \<Rightarrow> nat set \<Rightarrow> trim_state
      \<Rightarrow> (nat \<Rightarrow> nat) \<Rightarrow> bool" where
  "top_inv F V0 C0 X st p =
     (trim_inv F V0 C0 st p
      \<and> (\<forall>j < nat (num_sites F). \<not> fst st ! j \<and> snd st ! j \<noteq> 0 \<longrightarrow>
            \<not> V0 ! j \<and> snd st ! j = C0 ! j \<and> p j = 0 \<and> j \<notin> X))"

section \<open>Symmetric neighbour relations and the recount\<close>

text \<open>
  The neighbour relation is symmetric when site \<open>j\<close> occurs among the in-box neighbours of
  site \<open>i\<close> as often as \<open>i\<close> among those of \<open>j\<close>. The recount of a site is the number of
  its in-box neighbours that are valid, from the hopping rules and a given \<open>is_valid\<close>.
\<close>

definition symmetric_neighbours :: "('v, 'x) foundation_scheme \<Rightarrow> bool" where
  "symmetric_neighbours F =
     list_all (\<lambda>i. list_all (\<lambda>j. count_list (nbr F i) j = count_list (nbr F j) i)
                       [0..<nat (num_sites F)])
       [0..<nat (num_sites F)]"

definition hoppings_bounded :: "('v, 'x) foundation_scheme \<Rightarrow> bool" where
  "hoppings_bounded F =
     list_all (\<lambda>sl. length (hoppings sl) \<le> 32767) (sublattices (lattice F))"

definition recount :: "('v, 'x) foundation_scheme \<Rightarrow> bool list \<Rightarrow> site \<Rightarrow> nat" where
  "recount F V s = length (filter (site_is_valid V) (neighbours F s))"

section \<open>Further example inputs\<close>

text \<open>
  The chain with its first two sites invalid; three cells with the single hopping rule +1,
  which has no reverse; a shape that contains every position; and the Foundation built from
  it on the chain with \<open>min_neighbours = 2\<close>.
\<close>

definition two_invalid_example :: "int foundation" where
  "two_invalid_example = chain_example\<lparr>is_valid := [False, False, True, True]\<rparr>"

definition oneway_example :: "int foundation" where
  "oneway_example =
     \<lparr>lattice = \<lparr>vectors = [1],
         sublattices = [\<lparr>offset = 0,
            hoppings = [\<lparr>relative_index = (1, 0, 0), to_sublattice = 0\<rparr>]\<rparr>],
         min_neighbours = 1\<rparr>,
      size3 = (3, 1, 1), size_n = 1, num_sites = 3, positions = [0, 1, 2],
      is_valid = [False, True, True]\<rparr>"

definition everywhere_example :: "int shape" where
  "everywhere_example = \<lparr>vertices = [0, 3], shape_offset = 0, contains = map (\<lambda>p. True)\<rparr>"

definition strict_chain_example :: "int foundation" where
  "strict_chain_example =
     Foundation_from_shape int_ops chain_solve (chain_lattice\<lparr>min_neighbours := 2\<rparr>)
       everywhere_example"

section \<open>HamiltonianIndices: proofs\<close>

lemma valid_before_Suc:
  "i < length valid \<Longrightarrow>
   valid_before valid (Suc i) = valid_before valid i + (if valid ! i then 1 else 0)"
  by (simp add: valid_before_def take_Suc_conv_app_nth)

lemma assign_loop:
  "k \<le> n \<Longrightarrow> n \<le> length valid \<Longrightarrow>
   fold (assign_index valid) [0..<k] \<lparr>indices = replicate n (- 1), num_valid_sites = 0\<rparr>
   = \<lparr>indices = map (\<lambda>i. if i < k \<and> valid ! i then int (valid_before valid i) else - 1) [0..<n],
      num_valid_sites = int (valid_before valid k)\<rparr>"
proof (induction k)
  case 0
  show ?case by (simp add: valid_before_def list_eq_iff_nth_eq)
next
  case (Suc k)
  then have k: "k < n" "k < length valid" by simp_all
  have upd: "(map (\<lambda>i. if i < k \<and> valid ! i then int (valid_before valid i) else - 1) [0..<n])
               [k := int (valid_before valid k)]
             = map (\<lambda>i. if i < Suc k \<and> valid ! i then int (valid_before valid i) else - 1) [0..<n]"
    if "valid ! k"
    using that k by (auto simp: list_eq_iff_nth_eq nth_list_update less_Suc_eq)
  have same: "map (\<lambda>i. if i < k \<and> valid ! i then int (valid_before valid i) else - 1) [0..<n]
             = map (\<lambda>i. if i < Suc k \<and> valid ! i then int (valid_before valid i) else - 1) [0..<n]"
    if "\<not> valid ! k"
    using that by (auto simp: less_Suc_eq)
  from Suc.IH k Suc.prems show ?case
    by (simp add: assign_index_def valid_before_Suc upd same)
qed

lemma filter_assigned:
  "n \<le> length valid \<Longrightarrow>
   filter (\<lambda>x. x \<noteq> - 1) (map (\<lambda>i. if valid ! i then int (valid_before valid i) else - 1) [0..<n])
   = map int [0..<valid_before valid n]"
proof (induction n)
  case 0
  show ?case by (simp add: valid_before_def)
next
  case (Suc n)
  then show ?case by (simp add: valid_before_Suc)
qed

lemma HamiltonianIndices_closed_form:
  assumes "length (is_valid F) = nat (num_sites F)"
  shows "HamiltonianIndices F =
         \<lparr>indices = map (\<lambda>i. if is_valid F ! i then int (valid_before (is_valid F) i) else - 1)
                       [0..<nat (num_sites F)],
          num_valid_sites = int (valid_before (is_valid F) (nat (num_sites F)))\<rparr>"
proof -
  have "map (\<lambda>i. if i < nat (num_sites F) \<and> is_valid F ! i
                  then int (valid_before (is_valid F) i) else - 1) [0..<nat (num_sites F)]
        = map (\<lambda>i. if is_valid F ! i then int (valid_before (is_valid F) i) else - 1)
            [0..<nat (num_sites F)]"
    by simp
  with assign_loop [of "nat (num_sites F)" "nat (num_sites F)" "is_valid F"] assms
  show ?thesis by (simp add: HamiltonianIndices_def)
qed

text \<open>
  C5. The indices are assigned in one ascending pass: a valid site gets the number of
  valid sites before it, an invalid site keeps \<open>-1\<close>; the entries other than \<open>-1\<close>, read
  in flat-index order, are exactly \<open>0, 1, ..., num_valid_sites - 1\<close> (so they form the set
  \<open>[0, num_valid_sites)\<close> and increase strictly), and \<open>num_valid_sites\<close> is the number
  of \<open>true\<close> entries of \<open>is_valid\<close>.
\<close>

theorem HamiltonianIndices_correct:
  assumes "length (is_valid F) = nat (num_sites F)"
  shows "length (indices (HamiltonianIndices F)) = nat (num_sites F)
    \<and> (\<forall>i < nat (num_sites F).
          indices (HamiltonianIndices F) ! i
            = (if is_valid F ! i then int (valid_before (is_valid F) i) else - 1))
    \<and> filter (\<lambda>x. x \<noteq> - 1) (indices (HamiltonianIndices F))
        = map int [0..<nat (num_valid_sites (HamiltonianIndices F))]
    \<and> set (filter (\<lambda>x. x \<noteq> - 1) (indices (HamiltonianIndices F)))
        = {0..<num_valid_sites (HamiltonianIndices F)}
    \<and> sorted_wrt (<) (filter (\<lambda>x. x \<noteq> - 1) (indices (HamiltonianIndices F)))
    \<and> num_valid_sites (HamiltonianIndices F) = int (length (filter id (is_valid F)))"
proof -
  let ?n = "nat (num_sites F)"
  let ?v = "is_valid F"
  note cf = HamiltonianIndices_closed_form [OF assms]
  have flt: "filter (\<lambda>x. x \<noteq> - 1) (indices (HamiltonianIndices F))
             = map int [0..<valid_before ?v ?n]"
    using filter_assigned [of ?n ?v] assms by (simp add: cf)
  have nv: "num_valid_sites (HamiltonianIndices F) = int (valid_before ?v ?n)"
    by (simp add: cf)
  have total: "valid_before ?v ?n = length (filter id ?v)"
    using assms by (simp add: valid_before_def)
  have st: "set (map int [0..<valid_before ?v ?n]) = {0..<int (valid_before ?v ?n)}"
    by (auto simp: image_iff) (metis atLeastLessThan_iff nat_less_iff nat_0_le zero_le)
  have srt: "sorted_wrt (<) (map int [0..<valid_before ?v ?n])"
    by (simp add: sorted_wrt_map sorted_wrt_iff_nth_less)
  show ?thesis
    using flt nv total st srt by (simp add: cf)
qed

theorem HamiltonianIndices_correct_witness:
  "length (is_valid chain_example) = nat (num_sites chain_example)
   \<and> indices (HamiltonianIndices chain_example) ! 2 = 1
   \<and> filter (\<lambda>x. x \<noteq> - 1) (indices (HamiltonianIndices chain_example)) = [0, 1, 2]
   \<and> num_valid_sites (HamiltonianIndices chain_example) = 3"
proof -
  have h: "length (is_valid chain_example) = nat (num_sites chain_example)"
    by (simp add: chain_example_def)
  have u: "[0..<nat 3] = [0, 1, 2]"
    by (simp add: upt_rec)
  from HamiltonianIndices_correct [OF h] h u show ?thesis
    by (simp add: chain_example_def valid_before_def)
qed

section \<open>BoundsFinder: proofs\<close>

lemma nth3_simps:
  "nth3 (a, b, c) 0 = a" "nth3 (a, b, c) (Suc 0) = b" "nth3 (a, b, c) 2 = c"
  by (simp_all add: nth3_def)

lemma less_3_cases: "i < 3 \<Longrightarrow> i = 0 \<or> i = Suc 0 \<or> i = (2::nat)"
  by arith

lemma nth3_select3:
  "nth3 (select3 cond v w) i = (if cond (nth3 v i) (nth3 w i) then nth3 v i else nth3 w i)"
  by (cases v; cases w) (simp add: nth3_def select3_def)

lemma nth3_head_map:
  "i < 3 \<Longrightarrow> nth3 (head_map n f v) i = (if i < n then f (nth3 v i) else nth3 v i)"
  by (cases v) (auto simp: nth3_def head_map_def dest!: less_3_cases)

lemma nth3_lattice_coordinates:
  "i < 3 \<Longrightarrow> nth3 (lattice_coordinates solve_cast L p) i
     = (if i < length (vectors L) then sint (solve_cast (vectors L) p i) else 0)"
  by (auto simp: nth3_def lattice_coordinates_def head_assign_def constant3_def
      dest!: less_3_cases)

lemma nth3_constant3: "nth3 (constant3 x) i = x"
  by (simp add: nth3_def constant3_def)

lemma track_bounds_fold:
  "nth3 (fst (fold (track_bounds solve_cast L) ps (lo, up))) i
     = fold min (map (\<lambda>p. nth3 (lattice_coordinates solve_cast L p) i) ps) (nth3 lo i)
   \<and> nth3 (snd (fold (track_bounds solve_cast L) ps (lo, up))) i
     = fold max (map (\<lambda>p. nth3 (lattice_coordinates solve_cast L p) i) ps) (nth3 up i)"
proof (induction ps arbitrary: lo up)
  case Nil
  show ?case by simp
next
  case (Cons p ps)
  have lo: "nth3 (select3 (<) (lattice_coordinates solve_cast L p) lo) i
            = min (nth3 (lattice_coordinates solve_cast L p) i) (nth3 lo i)"
    by (simp add: nth3_select3 min_def)
  have up: "nth3 (select3 (>) (lattice_coordinates solve_cast L p) up) i
            = max (nth3 (lattice_coordinates solve_cast L p) i) (nth3 up i)"
    by (simp add: nth3_select3 max_def)
  show ?case
    using Cons.IH [of "select3 (<) (lattice_coordinates solve_cast L p) lo"
                      "select3 (>) (lattice_coordinates solve_cast L p) up"]
    by (simp add: track_bounds_def Let_def lo up)
qed

lemma wrap32_id: "INT_MIN \<le> x \<Longrightarrow> x \<le> INT_MAX \<Longrightarrow> wrap32 x = x"
  by (simp add: wrap32_def INT_MIN_def INT_MAX_def)

lemma wrap32_sint: "wrap32 x = sint (word_of_int x :: 32 word)"
  by (simp add: wrap32_def sint_sbintrunc' signed_take_bit_eq_take_bit_shift take_bit_eq_mod)

lemma sint32_range: "INT_MIN \<le> sint (w :: 32 word) \<and> sint w \<le> INT_MAX"
  using sint_ge [of w] sint_lt [of w] by (simp add: INT_MIN_def INT_MAX_def)

lemma coord_range:
  "i < 3 \<Longrightarrow> INT_MIN \<le> nth3 (lattice_coordinates solve_cast L p) i
     \<and> nth3 (lattice_coordinates solve_cast L p) i \<le> INT_MAX"
  using sint32_range by (simp add: nth3_lattice_coordinates) (simp add: INT_MIN_def INT_MAX_def)

lemma fold_min_sentinel:
  assumes "xs \<noteq> []" "\<forall>x \<in> set xs. x \<le> (m::int)"
  shows "fold min xs m = Min (set xs)"
proof -
  have "fold min xs m = Min (set (m # xs))"
    by (simp only: Min.set_eq_fold)
  also have "\<dots> = min m (Min (set xs))"
    using assms by simp
  also have "\<dots> = Min (set xs)"
  proof -
    have "Min (set xs) \<in> set xs" using assms(1) by simp
    then have "Min (set xs) \<le> m" using assms(2) by blast
    then show ?thesis by simp
  qed
  finally show ?thesis .
qed

lemma fold_max_sentinel:
  assumes "xs \<noteq> []" "\<forall>x \<in> set xs. (m::int) \<le> x"
  shows "fold max xs m = Max (set xs)"
proof -
  have "fold max xs m = Max (set (m # xs))"
    by (simp only: Max.set_eq_fold)
  also have "\<dots> = max m (Max (set xs))"
    using assms by simp
  also have "\<dots> = Max (set xs)"
  proof -
    have "Max (set xs) \<in> set xs" using assms(1) by simp
    then have "m \<le> Max (set xs)" using assms(2) by blast
    then show ?thesis by simp
  qed
  finally show ?thesis .
qed

text \<open>
  C9. With at least one vertex, component \<open>i\<close> of the lower bound is the minimum over
  the vertices of the truncated lattice coordinate, minus 1, and component \<open>i\<close> of the upper
  bound is the maximum plus 1, for \<open>i < ndim\<close>; the components from \<open>ndim\<close> on are 0 in
  both bounds. The minimum is above \<open>INT_MIN\<close> and the maximum below \<open>INT_MAX\<close>, so that
  the padding stays in the range of \<^verbatim>\<open>int\<close>.
\<close>

theorem find_bounds_correct:
  assumes "vertices S \<noteq> []" and "i < 3"
    and "i < length (vectors L) \<Longrightarrow> INT_MIN < Min (vertex_coordinates solve_cast S L i)"
    and "i < length (vectors L) \<Longrightarrow> Max (vertex_coordinates solve_cast S L i) < INT_MAX"
  shows "nth3 (fst (find_bounds solve_cast S L)) i
           = (if i < length (vectors L) then Min (vertex_coordinates solve_cast S L i) - 1 else 0)
       \<and> nth3 (snd (find_bounds solve_cast S L)) i
           = (if i < length (vectors L) then Max (vertex_coordinates solve_cast S L i) + 1 else 0)"
proof -
  let ?cs = "map (\<lambda>p. nth3 (lattice_coordinates solve_cast L p) i) (vertices S)"
  let ?r = "fold (track_bounds solve_cast L) (vertices S) (constant3 INT_MAX, constant3 INT_MIN)"
  have ne: "?cs \<noteq> []" using assms by simp
  have rng: "\<forall>x \<in> set ?cs. x \<le> INT_MAX" "\<forall>x \<in> set ?cs. INT_MIN \<le> x"
    using coord_range [OF \<open>i < 3\<close>, of solve_cast L] by simp_all
  have lo: "nth3 (fst ?r) i = Min (set ?cs)"
    using track_bounds_fold [of solve_cast L "vertices S" "constant3 INT_MAX" "constant3 INT_MIN" i]
      fold_min_sentinel [OF ne rng(1)] by (simp add: nth3_constant3)
  have up: "nth3 (snd ?r) i = Max (set ?cs)"
    using track_bounds_fold [of solve_cast L "vertices S" "constant3 INT_MAX" "constant3 INT_MIN" i]
      fold_max_sentinel [OF ne rng(2)] by (simp add: nth3_constant3)
  have set_in: "set ?cs = vertex_coordinates solve_cast S L i" if "i < length (vectors L)"
    using that \<open>i < 3\<close> by (simp add: vertex_coordinates_def nth3_lattice_coordinates)
  have set_out: "set ?cs = {0}" if "\<not> i < length (vectors L)"
  proof -
    from assms(1) obtain p where "p \<in> set (vertices S)" by (cases "vertices S") auto
    then show ?thesis
      using that \<open>i < 3\<close> by (auto simp: nth3_lattice_coordinates)
  qed
  have fin: "finite (set ?cs)" "set ?cs \<noteq> {}"
    using ne by simp_all
  have mm: "Min (set ?cs) \<le> INT_MAX" "INT_MIN \<le> Max (set ?cs)"
    using rng Min_in [OF fin] Max_in [OF fin] by blast+
  have pad_lo: "wrap32 (Min (set ?cs) - 1) = Min (set ?cs) - 1" if "i < length (vectors L)"
    using assms(3) [OF that] mm(1) set_in [OF that]
    by (intro wrap32_id) (simp_all add: INT_MIN_def INT_MAX_def)
  have pad_up: "wrap32 (Max (set ?cs) + 1) = Max (set ?cs) + 1" if "i < length (vectors L)"
    using assms(4) [OF that] mm(2) set_in [OF that]
    by (intro wrap32_id) (simp_all add: INT_MIN_def INT_MAX_def)
  have f: "nth3 (fst (find_bounds solve_cast S L)) i
             = (if i < length (vectors L) then wrap32 (nth3 (fst ?r) i - 1) else nth3 (fst ?r) i)"
    "nth3 (snd (find_bounds solve_cast S L)) i
             = (if i < length (vectors L) then wrap32 (nth3 (snd ?r) i + 1) else nth3 (snd ?r) i)"
    using \<open>i < 3\<close> by (simp_all add: find_bounds_def Let_def nth3_head_map split: prod.splits)
  show ?thesis
  proof (cases "i < length (vectors L)")
    case True
    then show ?thesis
      unfolding f lo up using pad_lo [OF True] pad_up [OF True] set_in [OF True] by simp
  next
    case False
    then show ?thesis
      unfolding f lo up using set_out [OF False] by simp
  qed
qed

theorem find_bounds_correct_witness:
  "vertices segment_example \<noteq> [] \<and> (0::nat) < 3
   \<and> INT_MIN < Min (vertex_coordinates chain_solve segment_example chain_lattice 0)
   \<and> Max (vertex_coordinates chain_solve segment_example chain_lattice 0) < INT_MAX
   \<and> nth3 (fst (find_bounds chain_solve segment_example chain_lattice)) 0 = - 1
   \<and> nth3 (snd (find_bounds chain_solve segment_example chain_lattice)) 0 = 4"
proof -
  have h: "vertices segment_example \<noteq> []" "(0::nat) < 3"
    by (simp_all add: segment_example_def)
  have c: "vertex_coordinates chain_solve segment_example chain_lattice 0 = {0, 3}"
    by (simp add: vertex_coordinates_def segment_example_def chain_lattice_def chain_solve_def)
  have r: "INT_MIN < Min (vertex_coordinates chain_solve segment_example chain_lattice 0)"
    "Max (vertex_coordinates chain_solve segment_example chain_lattice 0) < INT_MAX"
    unfolding c by (simp_all add: INT_MIN_def INT_MAX_def)
  have n: "(0::nat) < length (vectors chain_lattice)"
    by (simp add: chain_lattice_def)
  from find_bounds_correct [OF h r] n
  have "nth3 (fst (find_bounds chain_solve segment_example chain_lattice)) 0
          = Min (vertex_coordinates chain_solve segment_example chain_lattice 0) - 1
        \<and> nth3 (snd (find_bounds chain_solve segment_example chain_lattice)) 0
          = Max (vertex_coordinates chain_solve segment_example chain_lattice 0) + 1"
    by simp
  then have "nth3 (fst (find_bounds chain_solve segment_example chain_lattice)) 0 = - 1
        \<and> nth3 (snd (find_bounds chain_solve segment_example chain_lattice)) 0 = 4"
    unfolding c by simp
  with h r show ?thesis by blast
qed

text \<open>
  C10. With no vertex the loop body never runs and the sentinels are returned with the
  padding applied: component \<open>i\<close> of the lower bound is \<open>INT_MAX - 1\<close> for \<open>i < ndim\<close> and
  \<open>INT_MAX\<close> beyond, component \<open>i\<close> of the upper bound is \<open>INT_MIN + 1\<close> for \<open>i < ndim\<close>
  and \<open>INT_MIN\<close> beyond; the lower bound exceeds the upper bound in every component, and no
  component is 0.
\<close>

theorem find_bounds_empty:
  assumes "vertices S = []" and "i < 3"
  shows "nth3 (fst (find_bounds solve_cast S L)) i
           = (if i < length (vectors L) then INT_MAX - 1 else INT_MAX)
       \<and> nth3 (snd (find_bounds solve_cast S L)) i
           = (if i < length (vectors L) then INT_MIN + 1 else INT_MIN)
       \<and> nth3 (fst (find_bounds solve_cast S L)) i > nth3 (snd (find_bounds solve_cast S L)) i
       \<and> nth3 (fst (find_bounds solve_cast S L)) i \<noteq> 0
       \<and> nth3 (snd (find_bounds solve_cast S L)) i \<noteq> 0"
  using assms
  by (simp add: find_bounds_def Let_def nth3_head_map nth3_constant3)
     (simp add: INT_MAX_def INT_MIN_def wrap32_def)

theorem find_bounds_empty_witness:
  "vertices no_vertices_example = [] \<and> (1::nat) < 3
   \<and> find_bounds chain_solve no_vertices_example chain_lattice
       = ((2147483646, 2147483647, 2147483647), (- 2147483647, - 2147483648, - 2147483648))"
proof -
  have h: "vertices no_vertices_example = []" "(1::nat) < 3"
    by (simp_all add: no_vertices_example_def)
  from find_bounds_empty [OF h, of chain_solve chain_lattice] h show ?thesis
    by (simp add: find_bounds_def no_vertices_example_def chain_lattice_def head_map_def
        constant3_def INT_MAX_def INT_MIN_def wrap32_def)
qed

section \<open>EdgeTrimmer: counting, proofs\<close>

lemma fold_decrement:
  "fold (\<lambda>h (num :: int16). if P h then num - 1 else num) hs n0
   = n0 - word_of_nat (length (filter P hs))"
  by (induction hs arbitrary: n0) simp_all

lemma count_site_closed_form:
  "count_site F s
   = word_of_nat (length (site_hoppings F s)) - word_of_nat (length (outside_hoppings F s))"
  by (simp add: count_site_def outside_hoppings_def fold_decrement Let_def)

lemma length_count_neighbors: "length (count_neighbors F) = nat (num_sites F)"
  by (simp add: count_neighbors_def sites_def)

lemma count_neighbors_nth:
  "i < nat (num_sites F) \<Longrightarrow> count_neighbors F ! i = count_site F (site_at F i)"
  by (simp add: count_neighbors_def sites_def)

lemma sint_int16:
  "- 32768 \<le> k \<Longrightarrow> k < 32768 \<Longrightarrow> sint (word_of_int k :: int16) = k"
  by (simp add: sint_sbintrunc' signed_take_bit_int_eq_self)

lemma sint_diff_small:
  fixes a b :: nat
  assumes "b \<le> a" "a \<le> 32767"
  shows "sint (word_of_nat a - word_of_nat b :: int16) = int a - int b"
proof -
  have "word_of_nat a - word_of_nat b = (word_of_int (int a - int b) :: int16)"
    by simp
  then show ?thesis
    using assms by (simp add: sint_int16 del: of_int_diff)
qed

lemma count_neighbors_ignores_validity:
  "count_neighbors (F\<lparr>is_valid := v\<rparr>) = count_neighbors F"
  by (simp add: count_neighbors_def sites_def site_at_def count_site_def
      site_hoppings_def out_of_box_def cong: fold_cong)

text \<open>
  C6, as amended. For a site whose sublattice has at most 32767 hopping rules (the range
  of the \<^verbatim>\<open>int16_t\<close> counter), \<^verbatim>\<open>count_neighbors\<close> returns the number of hopping rules
  of the sublattice less the number of those whose target index is outside the box; the
  result does not depend on \<open>is_valid\<close>.
\<close>

theorem count_neighbors_correct:
  assumes "i < nat (num_sites F)"
    and "length (site_hoppings F (site_at F i)) \<le> 32767"
  shows "sint (count_neighbors F ! i)
           = int (length (site_hoppings F (site_at F i)))
             - int (length (outside_hoppings F (site_at F i)))
       \<and> count_neighbors (F\<lparr>is_valid := v\<rparr>) = count_neighbors F"
proof -
  have "length (outside_hoppings F (site_at F i)) \<le> length (site_hoppings F (site_at F i))"
    by (simp add: outside_hoppings_def)
  then show ?thesis
    using assms by (simp add: count_neighbors_nth count_site_closed_form sint_diff_small
        count_neighbors_ignores_validity)
qed

theorem count_neighbors_correct_witness:
  "(1::nat) < nat (num_sites chain_example)
   \<and> length (site_hoppings chain_example (site_at chain_example 1)) \<le> 32767
   \<and> sint (count_neighbors chain_example ! 0) = 1
   \<and> sint (count_neighbors chain_example ! 1) = 2"
proof -
  have h: "(1::nat) < nat (num_sites chain_example)" "(0::nat) < nat (num_sites chain_example)"
    and l: "length (site_hoppings chain_example (site_at chain_example 1)) \<le> 32767"
      "length (site_hoppings chain_example (site_at chain_example 0)) \<le> 32767"
    by (simp_all add: chain_example_def chain_lattice_def site_hoppings_def site_at_def)
  from count_neighbors_correct [OF h(1) l(1)] count_neighbors_correct [OF h(2) l(2)] h l
  show ?thesis
    by (simp add: chain_example_def chain_lattice_def site_hoppings_def site_at_def
        outside_hoppings_def out_of_box_def target_index_def add3_def)
qed

text \<open>
  C6 as stated fails where the cast wraps: with 32768 hopping rules, none of them out of
  the box, the stored count is \<open>-32768\<close>.
\<close>

theorem count_neighbors_counterexample:
  "length (site_hoppings wide_example (site_at wide_example 0)) = 32768
   \<and> length (outside_hoppings wide_example (site_at wide_example 0)) = 0
   \<and> sint (count_neighbors wide_example ! 0) = - 32768"
proof -
  have 1: "site_hoppings wide_example (site_at wide_example 0)
           = replicate 32768 \<lparr>relative_index = (0, 0, 0), to_sublattice = 0\<rparr>"
    by (simp add: wide_example_def site_hoppings_def site_at_def)
  have 2: "outside_hoppings wide_example (site_at wide_example 0) = []"
    by (simp add: outside_hoppings_def 1)
       (simp add: wide_example_def site_at_def out_of_box_def target_index_def add3_def)
  have "count_neighbors wide_example ! 0 = count_site wide_example (site_at wide_example 0)"
    by (rule count_neighbors_nth) (simp add: wide_example_def)
  then show ?thesis
    by (simp add: count_site_closed_form 1 2)
qed

section \<open>PositionGenerator: proofs\<close>

lemma write_block_append:
  "write_block ps i (xs @ ys) = write_block (write_block ps i xs) (i + length xs) ys"
  by (induction xs arbitrary: ps i) simp_all

lemma length_write_block [simp]: "length (write_block ps i xs) = length ps"
  by (induction xs arbitrary: ps i) simp_all

lemma write_block_fits:
  "i + length xs \<le> length ps \<Longrightarrow>
   write_block ps i xs = take i ps @ xs @ drop (i + length xs) ps"
proof (induction xs arbitrary: ps i)
  case Nil
  show ?case by simp
next
  case (Cons x xs)
  then have i: "i < length ps" by simp
  have "write_block (ps[i := x]) (Suc i) xs
        = take (Suc i) (ps[i := x]) @ xs @ drop (Suc i + length xs) (ps[i := x])"
    using Cons.prems by (intro Cons.IH) simp
  also have "take (Suc i) (ps[i := x]) = take i ps @ [x]"
    using i by (simp add: take_Suc_conv_app_nth)
  also have "drop (Suc i + length xs) (ps[i := x]) = drop (Suc i + length xs) ps"
    by simp
  finally show ?case by simp
qed

lemma write_block_all: "length xs = length ps \<Longrightarrow> write_block ps 0 xs = xs"
  by (simp add: write_block_fits)

lemma fold_write_position:
  "fold (\<lambda>x. write_position (f x)) xs (ps, i) = (write_block ps i (map f xs), i + length xs)"
  by (induction xs arbitrary: ps i) (simp_all add: write_position_def)

lemma fold_blocks:
  assumes "\<And>x ps i. body x (ps, i) = (write_block ps i (g x), i + length (g x))"
  shows "fold body xs (ps, i)
         = (write_block ps i (concat (map g xs)), i + length (concat (map g xs)))"
  by (induction xs arbitrary: ps i) (simp_all add: assms write_block_append add.assoc)

lemma length_concat_uniform:
  "(\<And>x. x \<in> set xs \<Longrightarrow> length (g x) = m) \<Longrightarrow> length (concat (map g xs)) = length xs * m"
  by (induction xs) simp_all

lemma concat_uniform_nth:
  assumes "\<And>i. i < k \<Longrightarrow> length (g i) = m" and "i < k" and "j < m"
  shows "concat (map g [0..<k]) ! (i * m + j) = g i ! j"
  using assms
proof (induction k)
  case 0
  then show ?case by simp
next
  case (Suc k)
  have "length (concat (map g [0..<k])) = length [0..<k] * m"
    by (rule length_concat_uniform) (simp add: Suc.prems(1))
  then have len: "length (concat (map g [0..<k])) = k * m"
    by simp
  show ?case
  proof (cases "i < k")
    case True
    then have "i * m + j < k * m"
    proof -
      have "i * m + j < Suc i * m" using \<open>j < m\<close> by simp
      also have "Suc i * m \<le> k * m" using True by (intro mult_le_mono1) simp
      finally show ?thesis .
    qed
    with True Suc show ?thesis by (simp add: nth_append len)
  next
    case False
    with Suc.prems have "i = k" by simp
    then show ?thesis using Suc.prems by (simp add: nth_append len)
  qed
qed

lemma length_cell_positions: "length (cell_positions ops L pc) = length (sublattices L)"
  by (simp add: cell_positions_def)

lemma length_row_positions:
  "length (row_positions ops L sz pb) = nat (nth3 sz 2) * length (sublattices L)"
proof -
  have "length (row_positions ops L sz pb) = length [0..<nat (nth3 sz 2)] * length (sublattices L)"
    unfolding row_positions_def by (rule length_concat_uniform) (simp add: length_cell_positions)
  then show ?thesis by simp
qed

lemma length_plane_positions:
  "length (plane_positions ops L sz pa)
   = nat (nth3 sz 1) * (nat (nth3 sz 2) * length (sublattices L))"
proof -
  have "length (plane_positions ops L sz pa)
        = length [0..<nat (nth3 sz 1)] * (nat (nth3 sz 2) * length (sublattices L))"
    unfolding plane_positions_def by (rule length_concat_uniform) (simp add: length_row_positions)
  then show ?thesis by simp
qed

lemma length_grid_positions:
  "length (grid_positions ops origin sz L)
   = nat (nth3 sz 0) * (nat (nth3 sz 1) * (nat (nth3 sz 2) * length (sublattices L)))"
proof -
  have "length (grid_positions ops origin sz L)
        = length [0..<nat (nth3 sz 0)]
          * (nat (nth3 sz 1) * (nat (nth3 sz 2) * length (sublattices L)))"
    unfolding grid_positions_def by (rule length_concat_uniform) (simp add: length_plane_positions)
  then show ?thesis by simp
qed

lemma fill_cell:
  "fold (\<lambda>sub. write_position (vadd ops pc (offset (sublattices L ! sub))))
     [0..<length (sublattices L)] (ps, i)
   = (write_block ps i (cell_positions ops L pc), i + length (cell_positions ops L pc))"
  by (simp add: fold_write_position cell_positions_def)

lemma fill_row:
  "fold (\<lambda>c.
      fold (\<lambda>sub. write_position
              (vadd ops (if c = 0 then pb else vadd ops pb (vscale ops (int c) (vectors L ! 2)))
                 (offset (sublattices L ! sub))))
        [0..<length (sublattices L)])
     [0..<nat (nth3 sz 2)] (ps, i)
   = (write_block ps i (row_positions ops L sz pb), i + length (row_positions ops L sz pb))"
  unfolding row_positions_def
  by (rule fold_blocks) (simp only: fill_cell)

lemma fill_plane:
  "fold (\<lambda>b.
      fold (\<lambda>c.
        fold (\<lambda>sub. write_position
                (vadd ops
                   (if c = 0
                    then if b = 0 then pa else vadd ops pa (vscale ops (int b) (vectors L ! 1))
                    else vadd ops
                           (if b = 0 then pa else vadd ops pa (vscale ops (int b) (vectors L ! 1)))
                           (vscale ops (int c) (vectors L ! 2)))
                   (offset (sublattices L ! sub))))
          [0..<length (sublattices L)])
        [0..<nat (nth3 sz 2)])
     [0..<nat (nth3 sz 1)] (ps, i)
   = (write_block ps i (plane_positions ops L sz pa), i + length (plane_positions ops L sz pa))"
  unfolding plane_positions_def
  by (rule fold_blocks) (simp only: fill_row)

lemma fill_grid:
  "fold (\<lambda>a.
      fold (\<lambda>b.
        fold (\<lambda>c.
          fold (\<lambda>sub. write_position
                  (vadd ops
                     (if c = 0
                      then if b = 0 then vadd ops origin (vscale ops (int a) (vectors L ! 0))
                           else vadd ops (vadd ops origin (vscale ops (int a) (vectors L ! 0)))
                                  (vscale ops (int b) (vectors L ! 1))
                      else vadd ops
                             (if b = 0 then vadd ops origin (vscale ops (int a) (vectors L ! 0))
                              else vadd ops (vadd ops origin (vscale ops (int a) (vectors L ! 0)))
                                     (vscale ops (int b) (vectors L ! 1)))
                             (vscale ops (int c) (vectors L ! 2)))
                     (offset (sublattices L ! sub))))
            [0..<length (sublattices L)])
          [0..<nat (nth3 sz 2)])
        [0..<nat (nth3 sz 1)])
     [0..<nat (nth3 sz 0)] (ps, i)
   = (write_block ps i (grid_positions ops origin sz L),
      i + length (grid_positions ops origin sz L))"
  unfolding grid_positions_def
  by (rule fold_blocks) (simp only: fill_plane)

lemma prod3_nth3: "prod3 sz = nth3 sz 0 * nth3 sz 1 * nth3 sz 2"
  by (cases sz) (simp add: prod3_def nth3_def)

lemma wrap32_mult_left: "wrap32 (wrap32 x * y) = wrap32 (x * y)"
proof -
  have "(((x + 2147483648) mod 4294967296 - 2147483648) * y + 2147483648) mod 4294967296
        = (x * y + 2147483648) mod (4294967296::int)"
    by (rule mod_add_cong [OF _ refl], rule mod_mult_cong [OF _ refl]) (simp add: mod_simps)
  then show ?thesis by (simp add: wrap32_def)
qed

lemma num_sites_exact:
  assumes "0 \<le> x * y" "x * y \<le> INT_MAX"
  shows "wrap32 (wrap32 x * y) = x * y"
  unfolding wrap32_mult_left using assms by (intro wrap32_id) (simp_all add: INT_MIN_def)

lemma generate_positions_grid:
  assumes "0 \<le> nth3 sz 0" "0 \<le> nth3 sz 1" "0 \<le> nth3 sz 2"
    and "prod3 sz * int (length (sublattices L)) \<le> INT_MAX"
  shows "generate_positions ops origin sz L = grid_positions ops origin sz L"
proof -
  have "0 \<le> prod3 sz * int (length (sublattices L))"
    using assms(1-3) by (simp add: prod3_nth3)
  then have "wrap32 (wrap32 (prod3 sz) * int (length (sublattices L)))
             = prod3 sz * int (length (sublattices L))"
    using assms(4) by (rule num_sites_exact)
  moreover have "nat (prod3 sz * int (length (sublattices L)))
        = length (grid_positions ops origin sz L)"
    using assms(1-3) by (simp add: prod3_nth3 length_grid_positions nat_mult_distrib mult.assoc)
  ultimately show ?thesis
    unfolding generate_positions_def Let_def fill_grid fst_conv
    by (intro write_block_all) simp
qed

lemma row_positions_nth:
  assumes "c < nat (nth3 sz 2)" "sub < length (sublattices L)"
  shows "row_positions ops L sz pb ! (c * length (sublattices L) + sub)
         = vadd ops (if c = 0 then pb else vadd ops pb (vscale ops (int c) (vectors L ! 2)))
             (offset (sublattices L ! sub))"
proof -
  have "row_positions ops L sz pb ! (c * length (sublattices L) + sub)
        = cell_positions ops L
            (if c = 0 then pb else vadd ops pb (vscale ops (int c) (vectors L ! 2))) ! sub"
    unfolding row_positions_def
    by (rule concat_uniform_nth) (simp_all add: length_cell_positions assms)
  then show ?thesis using assms by (simp add: cell_positions_def)
qed

lemma plane_positions_nth:
  assumes "b < nat (nth3 sz 1)" "j < nat (nth3 sz 2) * length (sublattices L)"
  shows "plane_positions ops L sz pa ! (b * (nat (nth3 sz 2) * length (sublattices L)) + j)
         = row_positions ops L sz
             (if b = 0 then pa else vadd ops pa (vscale ops (int b) (vectors L ! 1))) ! j"
  unfolding plane_positions_def
  by (rule concat_uniform_nth) (use assms in \<open>simp_all add: length_row_positions\<close>)

lemma grid_positions_nth:
  assumes "a < nat (nth3 sz 0)"
    "j < nat (nth3 sz 1) * (nat (nth3 sz 2) * length (sublattices L))"
  shows "grid_positions ops origin sz L
           ! (a * (nat (nth3 sz 1) * (nat (nth3 sz 2) * length (sublattices L))) + j)
         = plane_positions ops L sz (vadd ops origin (vscale ops (int a) (vectors L ! 0))) ! j"
  unfolding grid_positions_def
  by (rule concat_uniform_nth) (use assms in \<open>simp_all add: length_plane_positions\<close>)

lemma block_index_less: "i < k \<Longrightarrow> j < m \<Longrightarrow> i * m + j < k * (m::nat)"
proof -
  assume "i < k" "j < m"
  then have "i * m + j < Suc i * m" by simp
  also have "Suc i * m \<le> k * m" using \<open>i < k\<close> by (intro mult_le_mono1) simp
  finally show ?thesis .
qed

lemma grid_positions_flat:
  assumes "a < nat (nth3 sz 0)" "b < nat (nth3 sz 1)" "c < nat (nth3 sz 2)"
    "sub < length (sublattices L)"
  shows "grid_positions ops origin sz L
           ! (((a * nat (nth3 sz 1) + b) * nat (nth3 sz 2) + c) * length (sublattices L) + sub)
         = vadd ops
             (if c = 0
              then if b = 0 then vadd ops origin (vscale ops (int a) (vectors L ! 0))
                   else vadd ops (vadd ops origin (vscale ops (int a) (vectors L ! 0)))
                          (vscale ops (int b) (vectors L ! 1))
              else vadd ops
                     (if b = 0 then vadd ops origin (vscale ops (int a) (vectors L ! 0))
                      else vadd ops (vadd ops origin (vscale ops (int a) (vectors L ! 0)))
                             (vscale ops (int b) (vectors L ! 1)))
                     (vscale ops (int c) (vectors L ! 2)))
             (offset (sublattices L ! sub))"
proof -
  let ?n = "length (sublattices L)"
  let ?sb = "nat (nth3 sz 1)" and ?sc = "nat (nth3 sz 2)"
  have j1: "c * ?n + sub < ?sc * ?n"
    using assms by (intro block_index_less)
  have j2: "b * (?sc * ?n) + (c * ?n + sub) < ?sb * (?sc * ?n)"
    using assms j1 by (intro block_index_less)
  have flat: "((a * ?sb + b) * ?sc + c) * ?n + sub
              = a * (?sb * (?sc * ?n)) + (b * (?sc * ?n) + (c * ?n + sub))"
    by (simp add: algebra_simps)
  show ?thesis
    unfolding flat grid_positions_nth [OF assms(1) j2] plane_positions_nth [OF assms(2) j1]
      row_positions_nth [OF assms(3,4)]
    by (rule refl)
qed

lemma length_generate_positions:
  "length (generate_positions ops origin sz L)
   = nat (wrap32 (wrap32 (prod3 sz) * int (length (sublattices L))))"
  unfolding generate_positions_def Let_def fill_grid fst_conv by simp

lemma grid_positions_enumeration:
  "grid_positions ops origin sz L
   = [position_of ops origin L a b c sub.
        a \<leftarrow> [0..<nat (nth3 sz 0)], b \<leftarrow> [0..<nat (nth3 sz 1)], c \<leftarrow> [0..<nat (nth3 sz 2)],
        sub \<leftarrow> [0..<length (sublattices L)]]"
  by (simp add: grid_positions_def plane_positions_def row_positions_def cell_positions_def
      position_of_def Let_def cong: if_cong)

text \<open>
  C7. For a size with no negative component whose number of sites
  \<open>size.a * size.b * size.c * num_sublattices\<close> fits \<^verbatim>\<open>int\<close>, the sequence has that many
  entries; it lists the sites with \<open>a\<close> outermost, then \<open>b\<close>, then \<open>c\<close>, the sublattice
  innermost; and the entry at flat index \<open>((a*size.b + b)*size.c + c)*num_sublattices + sub\<close>
  is \<open>origin + a*vec0\<close>, plus \<open>b*vec1\<close> when \<open>b \<noteq> 0\<close>, plus \<open>c*vec2\<close> when \<open>c \<noteq> 0\<close>,
  plus the offset of the sublattice, added in this order. Nothing is assumed of the vector
  operations.
\<close>

theorem generate_positions_correct:
  assumes "0 \<le> sa" and "0 \<le> sb" and "0 \<le> sc"
    and "sa * sb * sc * int (length (sublattices L)) \<le> INT_MAX"
  shows "length (generate_positions ops origin (sa, sb, sc) L)
           = nat (sa * sb * sc * int (length (sublattices L)))
       \<and> generate_positions ops origin (sa, sb, sc) L
           = [position_of ops origin L a b c sub.
                a \<leftarrow> [0..<nat sa], b \<leftarrow> [0..<nat sb], c \<leftarrow> [0..<nat sc],
                sub \<leftarrow> [0..<length (sublattices L)]]
       \<and> (\<forall>a b c sub.
             int a < sa \<and> int b < sb \<and> int c < sc \<and> sub < length (sublattices L) \<longrightarrow>
             generate_positions ops origin (sa, sb, sc) L
               ! (((a * nat sb + b) * nat sc + c) * length (sublattices L) + sub)
             = position_of ops origin L a b c sub)"
proof (intro conjI allI impI)
  have pos: "0 \<le> nth3 (sa, sb, sc) 0" "0 \<le> nth3 (sa, sb, sc) 1" "0 \<le> nth3 (sa, sb, sc) 2"
    using assms(1-3) by (simp_all add: nth3_def)
  have fits: "prod3 (sa, sb, sc) * int (length (sublattices L)) \<le> INT_MAX"
    using assms(4) by (simp add: prod3_def)
  note grid = generate_positions_grid [OF pos fits]
  show "length (generate_positions ops origin (sa, sb, sc) L)
          = nat (sa * sb * sc * int (length (sublattices L)))"
    unfolding grid using assms(1-3)
    by (simp add: length_grid_positions nth3_def nat_mult_distrib mult.assoc)
  show "generate_positions ops origin (sa, sb, sc) L
          = [position_of ops origin L a b c sub.
               a \<leftarrow> [0..<nat sa], b \<leftarrow> [0..<nat sb], c \<leftarrow> [0..<nat sc],
               sub \<leftarrow> [0..<length (sublattices L)]]"
    unfolding grid grid_positions_enumeration by (simp add: nth3_def)
  fix a b c sub
  assume r: "int a < sa \<and> int b < sb \<and> int c < sc \<and> sub < length (sublattices L)"
  have rng: "a < nat (nth3 (sa, sb, sc) 0)" "b < nat (nth3 (sa, sb, sc) 1)"
    "c < nat (nth3 (sa, sb, sc) 2)" "sub < length (sublattices L)"
    using r by (simp_all add: nth3_def zless_nat_eq_int_zless)
  have "generate_positions ops origin (sa, sb, sc) L
          ! (((a * nat (nth3 (sa, sb, sc) 1) + b) * nat (nth3 (sa, sb, sc) 2) + c)
               * length (sublattices L) + sub)
        = position_of ops origin L a b c sub"
    unfolding grid grid_positions_flat [OF rng]
    by (simp add: position_of_def Let_def)
  then show "generate_positions ops origin (sa, sb, sc) L
               ! (((a * nat sb + b) * nat sc + c) * length (sublattices L) + sub)
             = position_of ops origin L a b c sub"
    by (simp add: nth3_def)
qed

text \<open>
  A box of 2 by 3 by 2 cells with two sublattices: 24 positions, the last one that of the
  site \<open>(1, 2, 1)\<close> on the second sublattice.
\<close>

theorem generate_positions_correct_witness:
  "(0::int) \<le> 2 \<and> (0::int) \<le> 3
   \<and> 2 * 3 * 2 * int (length (sublattices box_lattice)) \<le> INT_MAX
   \<and> length (generate_positions int_ops 1000 (2, 3, 2) box_lattice) = 24
   \<and> generate_positions int_ops 1000 (2, 3, 2) box_lattice
       = [1000, 1005, 1001, 1006, 1010, 1015, 1011, 1016, 1020, 1025, 1021, 1026,
          1100, 1105, 1101, 1106, 1110, 1115, 1111, 1116, 1120, 1125, 1121, 1126]
   \<and> generate_positions int_ops 1000 (2, 3, 2) box_lattice ! 23
       = position_of int_ops 1000 box_lattice 1 2 1 1"
proof -
  have n: "length (sublattices box_lattice) = 2"
    by (simp add: box_lattice_def)
  have h: "(0::int) \<le> 2" "(0::int) \<le> 3" "(0::int) \<le> 2"
    "2 * 3 * 2 * int (length (sublattices box_lattice)) \<le> INT_MAX"
    by (simp_all add: n INT_MAX_def)
  have e: "[position_of int_ops 1000 box_lattice a b c sub.
              a \<leftarrow> [0..<nat 2], b \<leftarrow> [0..<nat 3], c \<leftarrow> [0..<nat 2],
              sub \<leftarrow> [0..<length (sublattices box_lattice)]]
           = [1000, 1005, 1001, 1006, 1010, 1015, 1011, 1016, 1020, 1025, 1021, 1026,
              1100, 1105, 1101, 1106, 1110, 1115, 1111, 1116, 1120, 1125, 1121, 1126]"
    by code_simp
  note t = generate_positions_correct [OF h, of int_ops 1000]
  have l: "length (generate_positions int_ops 1000 (2, 3, 2) box_lattice) = 24"
    using conjunct1 [OF t] by (simp add: n)
  have g: "generate_positions int_ops 1000 (2, 3, 2) box_lattice
           = [position_of int_ops 1000 box_lattice a b c sub.
                a \<leftarrow> [0..<nat 2], b \<leftarrow> [0..<nat 3], c \<leftarrow> [0..<nat 2],
                sub \<leftarrow> [0..<length (sublattices box_lattice)]]"
    by (rule conjunct1 [OF conjunct2 [OF t]])
  have x: "generate_positions int_ops 1000 (2, 3, 2) box_lattice ! 23
           = position_of int_ops 1000 box_lattice 1 2 1 1"
    using conjunct2 [OF conjunct2 [OF t], rule_format, of 1 2 1 1] by (simp add: n)
  show ?thesis
    using h l g [unfolded e] x by blast
qed

text \<open>
  With an infinite second basis vector the only site of a box of one cell is at the origin,
  where the sum with every term added, \<open>0 + 0*1 + 0*\<infinity> + 0*1 + 0\<close>, is NaN.
\<close>

theorem generate_positions_counterexample:
  "generate_positions float_ops (Finite 0) (1, 1, 1) unbounded_lattice = [Finite 0]
   \<and> position_sum float_ops (Finite 0) unbounded_lattice 0 0 0 0 = NaN
   \<and> generate_positions float_ops (Finite 0) (1, 1, 1) unbounded_lattice ! 0
       \<noteq> position_sum float_ops (Finite 0) unbounded_lattice 0 0 0 0"
  by code_simp

section \<open>The flat-index bijection: proofs\<close>

lemma flat_decode:
  fixes A B C S :: nat
  assumes "B < SB" "C < SC" "S < N"
  shows "(((A * SB + B) * SC + C) * N + S) mod N = S"
    and "((((A * SB + B) * SC + C) * N + S) div N) mod SC = C"
    and "((((A * SB + B) * SC + C) * N + S) div (N * SC)) mod SB = B"
    and "(((A * SB + B) * SC + C) * N + S) div (N * SC * SB) = A"
proof -
  let ?f = "((A * SB + B) * SC + C) * N + S"
  have N: "0 < N" and SC: "0 < SC" and SB: "0 < SB" using assms by simp_all
  show "?f mod N = S" using assms by simp
  have d1: "?f div N = (A * SB + B) * SC + C" using assms by simp
  show "(?f div N) mod SC = C" using assms by (simp add: d1)
  have d2: "?f div (N * SC) = A * SB + B"
    using assms by (simp add: div_mult2_eq d1)
  show "(?f div (N * SC)) mod SB = B" using assms by (simp add: d2)
  have "?f div (N * SC * SB) = (?f div (N * SC)) div SB"
    by (simp add: div_mult2_eq)
  then show "?f div (N * SC * SB) = A" using assms by (simp add: d2)
qed

lemma flat_bound:
  fixes A B C S :: nat
  assumes "A < SA" "B < SB" "C < SC" "S < N"
  shows "((A * SB + B) * SC + C) * N + S < SA * SB * SC * N"
proof -
  have "A * SB + B < SA * SB" using assms(1,2) by (rule block_index_less)
  then have "(A * SB + B) * SC + C < SA * SB * SC" using assms(3) by (rule block_index_less)
  then show ?thesis using assms(4) by (rule block_index_less)
qed

lemma flat_encode:
  fixes i :: nat
  assumes "0 < N" "0 < SC" "0 < SB"
  shows "((i div (N * SC * SB) * SB + (i div (N * SC)) mod SB) * SC + (i div N) mod SC) * N
           + i mod N = i"
proof -
  have "i div (N * SC * SB) * SB + (i div (N * SC)) mod SB = i div (N * SC)"
    by (simp add: div_mult2_eq [symmetric] mult.commute [of SB] mult.assoc) 
       (metis div_mult2_eq div_mult_mod_eq mult.commute)
  moreover have "i div (N * SC) * SC + (i div N) mod SC = i div N"
    by (metis div_mult2_eq div_mult_mod_eq)
  ultimately show ?thesis by simp
qed

lemma calc_idx_roundtrip:
  assumes wf: "wf_foundation F"
    and box: "\<not> out_of_box F ix"
    and sub: "sub < nat (size_n F)"
  shows "calc_idx F ix sub < nat (num_sites F)"
    and "site_at F (calc_idx F ix sub) = \<lparr>index = ix, sublattice = sub, idx = calc_idx F ix sub\<rparr>"
proof -
  obtain a b c where ix: "ix = (a, b, c)" by (cases ix)
  obtain sa sb sc where sz: "size3 F = (sa, sb, sc)" by (cases "size3 F")
  from box ix sz have r: "0 \<le> a" "a < sa" "0 \<le> b" "b < sb" "0 \<le> c" "c < sc"
    by (simp_all add: out_of_box_def)
  define A B C SA SB SC N where "A = nat a" and "B = nat b" and "C = nat c"
    and "SA = nat sa" and "SB = nat sb" and "SC = nat sc" and "N = nat (size_n F)"
  have conv: "a = int A" "b = int B" "c = int C" "sa = int SA" "sb = int SB" "sc = int SC"
    using r by (simp_all add: A_def B_def C_def SA_def SB_def SC_def)
  have n: "size_n F = int N"
    using wf by (simp add: wf_foundation_def N_def)
  have lt: "A < SA" "B < SB" "C < SC" "sub < N"
    using r sub by (simp_all add: A_def B_def C_def SA_def SB_def SC_def N_def)
  have flat: "calc_idx F ix sub = ((A * SB + B) * SC + C) * N + sub"
  proof -
    have "((a * sb + b) * sc + c) * size_n F + int sub
          = int (((A * SB + B) * SC + C) * N + sub)"
      by (simp add: conv n)
    then show ?thesis
      by (simp only: calc_idx_def ix sz prod.case nat_int)
  qed
  have total: "nat (num_sites F) = SA * SB * SC * N"
  proof -
    have "num_sites F = int (SA * SB * SC * N)"
      using wf by (simp add: wf_foundation_def sz prod3_def conv n)
    then show ?thesis by (simp only: nat_int)
  qed
  show "calc_idx F ix sub < nat (num_sites F)"
    unfolding flat total using lt by (rule flat_bound)
  show "site_at F (calc_idx F ix sub) = \<lparr>index = ix, sublattice = sub, idx = calc_idx F ix sub\<rparr>"
    using flat_decode [OF lt(2,3,4), of A]
    by (simp add: site_at_def sz Let_def flat [symmetric] ix conv n)
qed

lemma site_at_simps [simp]:
  "idx (site_at F i) = i" "sublattice (site_at F i) = i mod nat (size_n F)"
  by (cases "size3 F"; simp add: site_at_def Let_def)+

lemma wf_size_n_pos:
  assumes "wf_foundation F" "i < nat (num_sites F)"
  shows "0 < nat (size_n F)"
proof (rule ccontr)
  assume "\<not> 0 < nat (size_n F)"
  with assms(1) have "size_n F = 0" by (simp add: wf_foundation_def)
  with assms show False by (simp add: wf_foundation_def)
qed

lemma site_hoppings_to_sublattice:
  assumes wf: "wf_foundation F" and i: "i < nat (num_sites F)"
    and h: "h \<in> set (site_hoppings F (site_at F i))"
  shows "to_sublattice h < nat (size_n F)"
proof -
  let ?L = "sublattices (lattice F)"
  have n: "nat (size_n F) = length ?L" using wf by (simp add: wf_foundation_def)
  have "i mod nat (size_n F) < length ?L"
    using wf_size_n_pos [OF wf i] n by simp
  then have "?L ! (i mod nat (size_n F)) \<in> set ?L" by simp
  moreover have "\<forall>sl \<in> set ?L. \<forall>h \<in> set (hoppings sl). to_sublattice h < length ?L"
    using wf by (simp add: wf_foundation_def list_all_iff)
  ultimately show ?thesis
    using h n by (simp add: site_hoppings_def)
qed

lemma neighbours_wf:
  assumes wf: "wf_foundation F" and i: "i < nat (num_sites F)"
    and nb: "nb \<in> set (neighbours F (site_at F i))"
  shows "idx nb < nat (num_sites F)" and "site_at F (idx nb) = nb"
proof -
  from nb obtain h where h: "h \<in> set (site_hoppings F (site_at F i))"
    and box: "\<not> out_of_box F (target_index (site_at F i) h)"
    and eq: "nb = shifted F (site_at F i) h"
    by (auto simp: neighbours_def)
  have sub: "to_sublattice h < nat (size_n F)"
    using wf i h by (rule site_hoppings_to_sublattice)
  show "idx nb < nat (num_sites F)"
    using calc_idx_roundtrip(1) [OF wf box sub] by (simp add: eq shifted_def)
  show "site_at F (idx nb) = nb"
    using calc_idx_roundtrip(2) [OF wf box sub] by (simp add: eq shifted_def)
qed

section \<open>EdgeTrimmer: elementary properties of clearing\<close>

declare clear_neighbors.simps [simp del]

lemma visit_neighbors_skip:
  "\<not> site_is_valid V n \<Longrightarrow>
   visit_neighbors F s (n # ns) (V, C) = visit_neighbors F s ns (V, C)"
  by simp

lemma visit_neighbors_decrement:
  "site_is_valid V n \<Longrightarrow> idx n < length C \<Longrightarrow>
   \<not> sint (C ! idx n - 1) < min_neighbours (lattice F) \<Longrightarrow>
   visit_neighbors F s (n # ns) (V, C) = visit_neighbors F s ns (V, C[idx n := C ! idx n - 1])"
  by (simp add: Let_def site_is_valid_def)

lemma visit_neighbors_invalidate:
  "site_is_valid V n \<Longrightarrow> idx n < length C \<Longrightarrow>
   sint (C ! idx n - 1) < min_neighbours (lattice F) \<Longrightarrow>
   visit_neighbors F s (n # ns) (V, C)
   = visit_neighbors F s ns
       (clear_neighbors F n (V[idx n := False], C[idx n := C ! idx n - 1]))"
  by (simp add: Let_def)

declare visit_neighbors.simps(2) [simp del]

lemma clear_visit_length:
  "length (fst (clear_neighbors F s st)) = length (fst st)
     \<and> length (snd (clear_neighbors F s st)) = length (snd st)"
  "length (fst (visit_neighbors F s ns st)) = length (fst st)
     \<and> length (snd (visit_neighbors F s ns st)) = length (snd st)"
proof (induction F s st and F s ns st rule: clear_neighbors_visit_neighbors.induct)
  case (1 F s V C)
  then show ?case by (simp add: Let_def clear_neighbors.simps)
next
  case (2 F s V C)
  show ?case by simp
next
  case (3 F s n ns V C)
  show ?case
  proof (cases "site_is_valid V n")
    case False
    with 3(1) show ?thesis by (simp add: visit_neighbors.simps)
  next
    case True
    show ?thesis
    proof (cases "sint (C[idx n := C ! idx n - 1] ! idx n) < min_neighbours (lattice F)")
      case below: True
      from 3(2) [OF _ refl below] 3(3) [OF _ refl below] True below show ?thesis
        by (simp add: Let_def visit_neighbors.simps)
    next
      case above: False
      from 3(4) [OF _ refl above] True above show ?thesis
        by (simp add: Let_def visit_neighbors.simps)
    qed
  qed
qed

lemma clear_visit_monotone:
  "fst (clear_neighbors F s st) ! i \<Longrightarrow> i < length (fst st) \<Longrightarrow> fst st ! i"
  "fst (visit_neighbors F s ns st) ! i \<Longrightarrow> i < length (fst st) \<Longrightarrow> fst st ! i"
proof (induction F s st and F s ns st arbitrary: i and i
    rule: clear_neighbors_visit_neighbors.induct)
  case (1 F s V C)
  then show ?case by (simp add: Let_def clear_neighbors.simps split: if_splits)
next
  case (2 F s V C)
  then show ?case by simp
next
  case (3 F s n ns V C)
  show ?case
  proof (cases "site_is_valid V n")
    case False
    with 3(1) [OF False] 3(5,6) show ?thesis by (simp add: visit_neighbors.simps)
  next
    case True
    show ?thesis
    proof (cases "sint (C[idx n := C ! idx n - 1] ! idx n) < min_neighbours (lattice F)")
      case below: True
      let ?st1 = "(V[idx n := False], C[idx n := C ! idx n - 1])"
      let ?st2 = "clear_neighbors F n ?st1"
      have len: "length (fst ?st2) = length V"
        using clear_visit_length(1) [of F n ?st1] by simp
      from 3(5) True below have "fst (visit_neighbors F s ns ?st2) ! i"
        by (simp add: Let_def visit_neighbors.simps)
      then have "fst ?st2 ! i"
        using 3(3) [OF _ refl below] True 3(6) len by simp
      then have "fst ?st1 ! i"
        using 3(2) [OF _ refl below] True 3(6) by simp
      then show ?thesis
        using 3(6) by (cases "i = idx n") simp_all
    next
      case above: False
      from 3(4) [OF _ refl above] True above 3(5,6) show ?thesis
        by (simp add: Let_def visit_neighbors.simps)
    qed
  qed
qed

lemma clear_neighbors_own_count:
  assumes "idx s < length C"
  shows "snd (clear_neighbors F s (V, C)) ! idx s = 0"
  using assms clear_visit_length(2) [of F s "neighbours F s" "(V, C)"]
  by (simp add: Let_def clear_neighbors.simps)

lemma clear_neighbors_idempotent:
  assumes "idx s < length C"
  shows "clear_neighbors F s (clear_neighbors F s (V, C)) = clear_neighbors F s (V, C)"
proof -
  obtain V' C' where r: "clear_neighbors F s (V, C) = (V', C')"
    by (cases "clear_neighbors F s (V, C)")
  have "C' ! idx s = 0"
    using clear_neighbors_own_count [OF assms, of F V] by (simp add: r)
  then show ?thesis unfolding r by (simp add: clear_neighbors.simps)
qed

section \<open>EdgeTrimmer: counting the processed hopping rules\<close>

lemma hits_advance:
  assumes "s < nat (num_sites F)" "p s = k" "k < length (nbr F s)"
  shows "hits F (p(s := Suc k)) v = hits F p v + (if nbr F s ! k = v then 1 else 0)"
proof -
  let ?n = "nat (num_sites F)"
  let ?f = "\<lambda>p j. count_list (take (p j) (nbr F j)) v"
  have fin: "finite {..<?n}" by simp
  have mem: "s \<in> {..<?n}" using assms(1) by simp
  have 1: "hits F (p(s := Suc k)) v = ?f (p(s := Suc k)) s + (\<Sum>j\<in>{..<?n} - {s}. ?f (p(s := Suc k)) j)"
    unfolding hits_def by (rule sum.remove [OF fin mem])
  have 2: "hits F p v = ?f p s + (\<Sum>j\<in>{..<?n} - {s}. ?f p j)"
    unfolding hits_def by (rule sum.remove [OF fin mem])
  have 3: "(\<Sum>j\<in>{..<?n} - {s}. ?f (p(s := Suc k)) j) = (\<Sum>j\<in>{..<?n} - {s}. ?f p j)"
    by (rule sum.cong) simp_all
  have 4: "?f (p(s := Suc k)) s = ?f p s + (if nbr F s ! k = v then 1 else 0)"
    using assms(2,3) by (simp add: take_Suc_conv_app_nth)
  show ?thesis unfolding 1 2 3 4 by simp
qed

lemma count_list_take_mono: "a \<le> b \<Longrightarrow> count_list (take a xs) v \<le> count_list (take b xs) v"
proof (induction xs arbitrary: a b)
  case Nil
  show ?case by simp
next
  case (Cons x xs)
  show ?case
  proof (cases a)
    case 0
    then show ?thesis by simp
  next
    case (Suc a')
    with Cons.prems obtain b' where b: "b = Suc b'" "a' \<le> b'" by (cases b) auto
    with Cons.IH [of a' b'] Suc show ?thesis by simp
  qed
qed

lemma hits_mono:
  assumes "\<forall>j < nat (num_sites F). q j \<le> p j"
  shows "hits F q v \<le> hits F p v"
  unfolding hits_def
  by (rule sum_mono) (use assms in \<open>simp add: count_list_take_mono\<close>)

lemma hits_zero [simp]: "hits F (\<lambda>j. 0) v = 0"
  by (simp add: hits_def)

section \<open>EdgeTrimmer: preservation of the invariant by single steps\<close>

lemma trim_invD:
  assumes "trim_inv F V0 C0 (V, C) p"
  shows "length V = nat (num_sites F)" "length C = nat (num_sites F)"
    and "\<And>j. j < nat (num_sites F) \<Longrightarrow> p j \<le> length (nbr F j)"
    and "\<And>j. j < nat (num_sites F) \<Longrightarrow> 0 < p j \<Longrightarrow> \<not> V ! j \<and> fires F V0 C0 j"
    and "\<And>v. v < nat (num_sites F) \<Longrightarrow> V ! v \<Longrightarrow>
           V0 ! v \<and> C ! v = C0 ! v - word_of_nat (hits F p v)
           \<and> (\<forall>d. 1 \<le> d \<and> d \<le> hits F p v \<longrightarrow> \<not> trig F C0 v d)"
    and "\<And>v. v < nat (num_sites F) \<Longrightarrow> \<not> V ! v \<Longrightarrow> v \<in> doomed F V0 C0"
    and "\<And>j. j < nat (num_sites F) \<Longrightarrow> \<not> V ! j \<Longrightarrow> C ! j = 0 \<Longrightarrow> p j = done_at F V0 C0 j"
  using assms unfolding trim_inv_def fst_conv snd_conv by blast+

lemma trim_invI:
  assumes "length V = nat (num_sites F)" "length C = nat (num_sites F)"
    and "\<And>j. j < nat (num_sites F) \<Longrightarrow> p j \<le> length (nbr F j)"
    and "\<And>j. j < nat (num_sites F) \<Longrightarrow> 0 < p j \<Longrightarrow> \<not> V ! j \<and> fires F V0 C0 j"
    and "\<And>v. v < nat (num_sites F) \<Longrightarrow> V ! v \<Longrightarrow>
           V0 ! v \<and> C ! v = C0 ! v - word_of_nat (hits F p v)
           \<and> (\<forall>d. 1 \<le> d \<and> d \<le> hits F p v \<longrightarrow> \<not> trig F C0 v d)"
    and "\<And>v. v < nat (num_sites F) \<Longrightarrow> \<not> V ! v \<Longrightarrow> v \<in> doomed F V0 C0"
    and "\<And>j. j < nat (num_sites F) \<Longrightarrow> \<not> V ! j \<Longrightarrow> C ! j = 0 \<Longrightarrow> p j = done_at F V0 C0 j"
  shows "trim_inv F V0 C0 (V, C) p"
  using assms unfolding trim_inv_def fst_conv snd_conv by blast

lemma inv_skip:
  assumes inv: "trim_inv F V0 C0 (V, C) p"
    and s: "s < nat (num_sites F)" "\<not> V ! s" "fires F V0 C0 s" "C ! s \<noteq> 0"
    and k: "p s = k" "k < length (nbr F s)"
    and t: "\<not> V ! (nbr F s ! k)"
  shows "trim_inv F V0 C0 (V, C) (p(s := Suc k))"
proof (rule trim_invI)
  note D = trim_invD [OF inv]
  show "length V = nat (num_sites F)" "length C = nat (num_sites F)" by (rule D)+
  show "(p(s := Suc k)) j \<le> length (nbr F j)" if "j < nat (num_sites F)" for j
    using that D(3) [of j] k by simp
  show "\<not> V ! j \<and> fires F V0 C0 j" if "j < nat (num_sites F)" "0 < (p(s := Suc k)) j" for j
    using that D(4) [of j] s by (cases "j = s") simp_all
  show "V0 ! v \<and> C ! v = C0 ! v - word_of_nat (hits F (p(s := Suc k)) v)
        \<and> (\<forall>d. 1 \<le> d \<and> d \<le> hits F (p(s := Suc k)) v \<longrightarrow> \<not> trig F C0 v d)"
    if "v < nat (num_sites F)" "V ! v" for v
  proof -
    have "nbr F s ! k \<noteq> v" using t that(2) by auto
    then have "hits F (p(s := Suc k)) v = hits F p v"
      using hits_advance [where p = p and s = s and v = v, OF s(1) k] by simp
    then show ?thesis using D(5) [OF that] by simp
  qed
  show "v \<in> doomed F V0 C0" if "v < nat (num_sites F)" "\<not> V ! v" for v
    using that by (rule D(6))
  show "(p(s := Suc k)) j = done_at F V0 C0 j"
    if "j < nat (num_sites F)" "\<not> V ! j" "C ! j = 0" for j
    using that D(7) [of j] s(4) by (cases "j = s") simp_all
qed

lemma inv_decrement:
  assumes inv: "trim_inv F V0 C0 (V, C) p"
    and s: "s < nat (num_sites F)" "\<not> V ! s" "fires F V0 C0 s" "C ! s \<noteq> 0"
    and k: "p s = k" "k < length (nbr F s)"
    and t: "nbr F s ! k = t" "t < nat (num_sites F)" "V ! t"
    and above: "\<not> sint (C ! t - 1) < min_neighbours (lattice F)"
  shows "trim_inv F V0 C0 (V, C[t := C ! t - 1]) (p(s := Suc k))"
proof (rule trim_invI)
  note D = trim_invD [OF inv]
  have ts: "t \<noteq> s" using s(2) t(3) by auto
  show "length V = nat (num_sites F)" "length (C[t := C ! t - 1]) = nat (num_sites F)"
    using D(1,2) by simp_all
  show "(p(s := Suc k)) j \<le> length (nbr F j)" if "j < nat (num_sites F)" for j
    using that D(3) [of j] k by simp
  show "\<not> V ! j \<and> fires F V0 C0 j" if "j < nat (num_sites F)" "0 < (p(s := Suc k)) j" for j
    using that D(4) [of j] s by (cases "j = s") simp_all
  show "V0 ! v \<and> C[t := C ! t - 1] ! v = C0 ! v - word_of_nat (hits F (p(s := Suc k)) v)
        \<and> (\<forall>d. 1 \<le> d \<and> d \<le> hits F (p(s := Suc k)) v \<longrightarrow> \<not> trig F C0 v d)"
    if v: "v < nat (num_sites F)" "V ! v" for v
  proof (cases "v = t")
    case False
    then have "hits F (p(s := Suc k)) v = hits F p v"
      using hits_advance [where p = p and s = s and v = v, OF s(1) k] t(1) by simp
    then show ?thesis using D(5) [OF v] False by simp
  next
    case True
    have h: "hits F (p(s := Suc k)) t = Suc (hits F p t)"
      using hits_advance [where p = p and s = s and v = t, OF s(1) k] t(1) by simp
    have c: "C ! t = C0 ! t - word_of_nat (hits F p t)"
      using D(5) [OF t(2,3)] by simp
    have old: "\<forall>d. 1 \<le> d \<and> d \<le> hits F p t \<longrightarrow> \<not> trig F C0 t d"
      using D(5) [OF t(2,3)] by simp
    have e: "C0 ! t - word_of_nat (Suc (hits F p t)) = C ! t - 1"
      using c by simp
    have new: "\<not> trig F C0 t (Suc (hits F p t))"
      unfolding trig_def e using above by simp
    have "\<not> trig F C0 t d" if "1 \<le> d" "d \<le> Suc (hits F p t)" for d
      using that old new by (cases "d = Suc (hits F p t)") auto
    then show ?thesis
      using D(5) [OF t(2,3)] D(2) t(2) e unfolding True h by simp
  qed
  show "v \<in> doomed F V0 C0" if "v < nat (num_sites F)" "\<not> V ! v" for v
    using that by (rule D(6))
  show "(p(s := Suc k)) j = done_at F V0 C0 j"
    if "j < nat (num_sites F)" "\<not> V ! j" "C[t := C ! t - 1] ! j = 0" for j
  proof -
    have "j \<noteq> t" using that(2) t(3) by auto
    then show ?thesis using that D(7) [of j] s(4) by (cases "j = s") simp_all
  qed
qed

lemma inv_invalidate:
  assumes inv: "trim_inv F V0 C0 (V, C) p"
    and s: "s < nat (num_sites F)" "\<not> V ! s" "fires F V0 C0 s" "C ! s \<noteq> 0"
    and k: "p s = k" "k < length (nbr F s)"
    and t: "nbr F s ! k = t" "t < nat (num_sites F)" "V ! t"
    and below: "sint (C ! t - 1) < min_neighbours (lattice F)"
  shows "trim_inv F V0 C0 (V[t := False], C[t := C ! t - 1]) (p(s := Suc k))"
    and "C ! t - 1 = clear_value F V0 C0 t"
    and "p t = 0"
proof -
  note D = trim_invD [OF inv]
  let ?p1 = "p(s := Suc k)"
  have ts: "t \<noteq> s" using s(2) t(3) by auto
  have V0t: "V0 ! t" and c: "C ! t = C0 ! t - word_of_nat (hits F p t)"
    and old: "\<forall>d. 1 \<le> d \<and> d \<le> hits F p t \<longrightarrow> \<not> trig F C0 t d"
    using D(5) [OF t(2,3)] by simp_all
  have h: "hits F ?p1 t = Suc (hits F p t)"
    using hits_advance [where p = p and s = s and v = t, OF s(1) k] t(1) by simp
  have e: "C0 ! t - word_of_nat (Suc (hits F p t)) = C ! t - 1"
    using c by simp
  have tr: "trig F C0 t (Suc (hits F p t))"
    unfolding trig_def e using below by simp
  have least: "first_trig F C0 t = Suc (hits F p t)"
    unfolding first_trig_def
  proof (rule Least_equality)
    show "trig F C0 t (Suc (hits F p t))" by (rule tr)
  next
    fix d assume d: "trig F C0 t d"
    then have "1 \<le> d" by (simp add: trig_def)
    with old d show "Suc (hits F p t) \<le> d" by (meson not_less_eq_eq)
  qed
  show cv: "C ! t - 1 = clear_value F V0 C0 t"
    unfolding clear_value_def least e using V0t by simp
  show pt: "p t = 0"
    using D(4) [OF t(2)] t(3) by auto
  have dm: "t \<in> doomed F V0 C0"
  proof (rule doomed.step [where q = ?p1, OF t(2) V0t])
    show "\<forall>j<nat (num_sites F). ?p1 j \<le> length (nbr F j)"
      using D(3) k by simp
    show "\<forall>j<nat (num_sites F). 0 < ?p1 j \<longrightarrow> j \<in> doomed F V0 C0 \<and> fires F V0 C0 j"
    proof (intro allI impI)
      fix j assume j: "j < nat (num_sites F)" "0 < ?p1 j"
      have "\<not> V ! j \<and> fires F V0 C0 j"
        using j D(4) [of j] s by (cases "j = s") simp_all
      then show "j \<in> doomed F V0 C0 \<and> fires F V0 C0 j"
        using D(6) [OF j(1)] by simp
    qed
    show "trig F C0 t (hits F ?p1 t)"
      unfolding h by (rule tr)
  qed
  show "trim_inv F V0 C0 (V[t := False], C[t := C ! t - 1]) ?p1"
  proof (rule trim_invI)
    show "length (V[t := False]) = nat (num_sites F)"
      "length (C[t := C ! t - 1]) = nat (num_sites F)"
      using D(1,2) by simp_all
    show "?p1 j \<le> length (nbr F j)" if "j < nat (num_sites F)" for j
      using that D(3) [of j] k by simp
    show "\<not> V[t := False] ! j \<and> fires F V0 C0 j"
      if j: "j < nat (num_sites F)" "0 < ?p1 j" for j
    proof -
      have "\<not> V ! j \<and> fires F V0 C0 j"
        using j D(4) [of j] s by (cases "j = s") simp_all
      then show ?thesis using D(1) j(1) by (cases "j = t") simp_all
    qed
    show "V0 ! v \<and> C[t := C ! t - 1] ! v = C0 ! v - word_of_nat (hits F ?p1 v)
          \<and> (\<forall>d. 1 \<le> d \<and> d \<le> hits F ?p1 v \<longrightarrow> \<not> trig F C0 v d)"
      if v: "v < nat (num_sites F)" "V[t := False] ! v" for v
    proof -
      have vt: "v \<noteq> t" using v D(1) by auto
      then have Vv: "V ! v" using v by simp
      have "hits F ?p1 v = hits F p v"
        using hits_advance [where p = p and s = s and v = v, OF s(1) k] t(1) vt by simp
      then show ?thesis using D(5) [OF v(1) Vv] vt by simp
    qed
    show "v \<in> doomed F V0 C0" if v: "v < nat (num_sites F)" "\<not> V[t := False] ! v" for v
      using v dm D(6) [OF v(1)] by (cases "v = t") simp_all
    show "?p1 j = done_at F V0 C0 j"
      if j: "j < nat (num_sites F)" "\<not> V[t := False] ! j" "C[t := C ! t - 1] ! j = 0" for j
    proof (cases "j = t")
      case True
      have "clear_value F V0 C0 t = 0"
        using j(3) D(2) t(2) cv by (simp add: True)
      then have "done_at F V0 C0 t = 0"
        by (simp add: done_at_def fires_def)
      then show ?thesis using pt ts by (simp add: True)
    next
      case False
      then have "\<not> V ! j" "C ! j = 0" using j by simp_all
      then show ?thesis using D(7) [OF j(1)] s(4) by (cases "j = s") simp_all
    qed
  qed
qed

lemma inv_finish:
  assumes inv: "trim_inv F V0 C0 (V, C) p"
    and t: "t < nat (num_sites F)" "\<not> V ! t" "fires F V0 C0 t" "p t = length (nbr F t)"
  shows "trim_inv F V0 C0 (V, C[t := 0]) p"
proof (rule trim_invI)
  note D = trim_invD [OF inv]
  show "length V = nat (num_sites F)" "length (C[t := 0]) = nat (num_sites F)"
    using D(1,2) by simp_all
  show "p j \<le> length (nbr F j)" if "j < nat (num_sites F)" for j
    using that by (rule D(3))
  show "\<not> V ! j \<and> fires F V0 C0 j" if "j < nat (num_sites F)" "0 < p j" for j
    using that by (rule D(4))
  show "V0 ! v \<and> C[t := 0] ! v = C0 ! v - word_of_nat (hits F p v)
        \<and> (\<forall>d. 1 \<le> d \<and> d \<le> hits F p v \<longrightarrow> \<not> trig F C0 v d)"
    if v: "v < nat (num_sites F)" "V ! v" for v
  proof -
    have "v \<noteq> t" using v t(2) by auto
    then show ?thesis using D(5) [OF v] by simp
  qed
  show "v \<in> doomed F V0 C0" if "v < nat (num_sites F)" "\<not> V ! v" for v
    using that by (rule D(6))
  show "p j = done_at F V0 C0 j"
    if j: "j < nat (num_sites F)" "\<not> V ! j" "C[t := 0] ! j = 0" for j
  proof (cases "j = t")
    case True
    then show ?thesis using t by (simp add: done_at_def)
  next
    case False
    then show ?thesis using j D(7) [OF j(1,2)] by simp
  qed
qed

section \<open>EdgeTrimmer: the invariant through the recursion\<close>

lemma trim_frame_refl: "trim_frame F t st p st p"
  by (simp add: trim_frame_def)

lemma trim_frameD:
  assumes "trim_frame F t (V, C) p (V', C') p'"
  shows "\<And>j. j < nat (num_sites F) \<Longrightarrow> V' ! j \<Longrightarrow> V ! j"
    and "\<And>j. j < nat (num_sites F) \<Longrightarrow> \<not> V ! j \<Longrightarrow> j \<noteq> t \<Longrightarrow> C' ! j = C ! j \<and> p' j = p j"
    and "\<And>j. j < nat (num_sites F) \<Longrightarrow> V ! j \<Longrightarrow> \<not> V' ! j \<Longrightarrow> C' ! j = 0"
  using assms unfolding trim_frame_def fst_conv snd_conv by blast+

lemma trim_frameI:
  assumes "\<And>j. j < nat (num_sites F) \<Longrightarrow> V' ! j \<Longrightarrow> V ! j"
    and "\<And>j. j < nat (num_sites F) \<Longrightarrow> \<not> V ! j \<Longrightarrow> j \<noteq> t \<Longrightarrow> C' ! j = C ! j \<and> p' j = p j"
    and "\<And>j. j < nat (num_sites F) \<Longrightarrow> V ! j \<Longrightarrow> \<not> V' ! j \<Longrightarrow> C' ! j = 0"
  shows "trim_frame F t (V, C) p (V', C') p'"
  using assms unfolding trim_frame_def fst_conv snd_conv by blast

lemma clear_case:
  assumes pre: "clear_pre F V0 C0 s (V, C) p"
    and IH: "\<And>q. C ! idx s \<noteq> 0 \<Longrightarrow> visit_pre F V0 C0 s (neighbours F s) (V, C) q \<Longrightarrow>
               visit_post F V0 C0 s (V, C) q (visit_neighbors F s (neighbours F s) (V, C))"
  shows "clear_post F V0 C0 s (V, C) p (clear_neighbors F s (V, C))"
proof (cases "C ! idx s = 0")
  case True
  then have "clear_neighbors F s (V, C) = (V, C)"
    by (simp add: clear_neighbors.simps)
  then show ?thesis
    using pre True unfolding clear_pre_def clear_post_def
    by (auto intro: trim_frame_refl)
next
  case False
  let ?t = "idx s"
  from pre have wf: "wf_foundation F" and t: "?t < nat (num_sites F)"
    and sa: "site_at F ?t = s" and inv: "trim_inv F V0 C0 (V, C) p"
    and nv: "\<not> V ! ?t" and p0: "p ?t = 0" and cv: "C ! ?t = clear_value F V0 C0 ?t"
    by (simp_all add: clear_pre_def)
  have fr: "fires F V0 C0 ?t" using False cv by (simp add: fires_def)
  have nb: "map idx (neighbours F s) = drop (p ?t) (nbr F ?t)"
    by (simp add: p0 nbr_def sa)
  have wfn: "\<forall>x \<in> set (neighbours F s). idx x < nat (num_sites F) \<and> site_at F (idx x) = x"
    using neighbours_wf [OF wf t] sa by auto
  have "visit_pre F V0 C0 s (neighbours F s) (V, C) p"
    using wf t sa inv nv fr False nb wfn by (simp add: visit_pre_def)
  from IH [OF False this] obtain p' V' C' where
    r: "visit_neighbors F s (neighbours F s) (V, C) = (V', C')"
    and inv': "trim_inv F V0 C0 (V', C') p'"
    and frame: "trim_frame F ?t (V, C) p (V', C') p'"
    and full: "p' ?t = length (nbr F ?t)"
    unfolding visit_post_def
    by (cases "visit_neighbors F s (neighbours F s) (V, C)") auto
  have res: "clear_neighbors F s (V, C) = (V', C'[?t := 0])"
    using False by (simp add: clear_neighbors.simps r)
  note FD = trim_frameD [OF frame]
  have nv': "\<not> V' ! ?t" using FD(1) [OF t] nv by blast
  have "trim_inv F V0 C0 (V', C'[?t := 0]) p'"
    using inv' t nv' fr full by (rule inv_finish)
  moreover have "trim_frame F ?t (V, C) p (V', C'[?t := 0]) p'"
  proof (rule trim_frameI)
    show "V ! j" if "j < nat (num_sites F)" "V' ! j" for j
      using that by (rule FD(1))
    show "C'[?t := 0] ! j = C ! j \<and> p' j = p j"
      if "j < nat (num_sites F)" "\<not> V ! j" "j \<noteq> ?t" for j
      using FD(2) [OF that] that(3) by simp
    show "C'[?t := 0] ! j = 0" if "j < nat (num_sites F)" "V ! j" "\<not> V' ! j" for j
      using FD(3) [OF that] that(2) nv by (cases "j = ?t") auto
  qed
  moreover have "C'[?t := 0] ! ?t = 0"
    using trim_invD(2) [OF inv'] t by simp
  ultimately show ?thesis
    unfolding clear_post_def res by auto
qed

lemma visit_nil_case:
  assumes pre: "visit_pre F V0 C0 s [] (V, C) p"
  shows "visit_post F V0 C0 s (V, C) p (visit_neighbors F s [] (V, C))"
proof -
  from pre have t: "idx s < nat (num_sites F)" and inv: "trim_inv F V0 C0 (V, C) p"
    and nb: "[] = drop (p (idx s)) (nbr F (idx s))"
    by (simp_all add: visit_pre_def)
  have "length (nbr F (idx s)) \<le> p (idx s)" using nb by simp
  with trim_invD(3) [OF inv t] have "p (idx s) = length (nbr F (idx s))" by simp
  with inv show ?thesis
    unfolding visit_post_def by (auto intro: trim_frame_refl)
qed

lemma visit_cons_case:
  assumes pre: "visit_pre F V0 C0 s (n # ns) (V, C) p"
    and IH_skip: "\<And>q. \<not> site_is_valid V n \<Longrightarrow> visit_pre F V0 C0 s ns (V, C) q \<Longrightarrow>
        visit_post F V0 C0 s (V, C) q (visit_neighbors F s ns (V, C))"
    and IH_clear: "\<And>q. site_is_valid V n \<Longrightarrow>
        sint (C ! idx n - 1) < min_neighbours (lattice F) \<Longrightarrow>
        clear_pre F V0 C0 n (V[idx n := False], C[idx n := C ! idx n - 1]) q \<Longrightarrow>
        clear_post F V0 C0 n (V[idx n := False], C[idx n := C ! idx n - 1]) q
          (clear_neighbors F n (V[idx n := False], C[idx n := C ! idx n - 1]))"
    and IH_after: "\<And>q. site_is_valid V n \<Longrightarrow>
        sint (C ! idx n - 1) < min_neighbours (lattice F) \<Longrightarrow>
        visit_pre F V0 C0 s ns
          (clear_neighbors F n (V[idx n := False], C[idx n := C ! idx n - 1])) q \<Longrightarrow>
        visit_post F V0 C0 s
          (clear_neighbors F n (V[idx n := False], C[idx n := C ! idx n - 1])) q
          (visit_neighbors F s ns
             (clear_neighbors F n (V[idx n := False], C[idx n := C ! idx n - 1])))"
    and IH_dec: "\<And>q. site_is_valid V n \<Longrightarrow>
        \<not> sint (C ! idx n - 1) < min_neighbours (lattice F) \<Longrightarrow>
        visit_pre F V0 C0 s ns (V, C[idx n := C ! idx n - 1]) q \<Longrightarrow>
        visit_post F V0 C0 s (V, C[idx n := C ! idx n - 1]) q
          (visit_neighbors F s ns (V, C[idx n := C ! idx n - 1]))"
  shows "visit_post F V0 C0 s (V, C) p (visit_neighbors F s (n # ns) (V, C))"
proof -
  let ?t = "idx s" and ?u = "idx n"
  let ?N = "nat (num_sites F)"
  define k where "k = p ?t"
  let ?p1 = "p(?t := Suc k)"
  from pre have wf: "wf_foundation F" and t: "?t < ?N"
    and sa: "site_at F ?t = s" and inv: "trim_inv F V0 C0 (V, C) p"
    and nv: "\<not> V ! ?t" and fr: "fires F V0 C0 ?t" and cs: "C ! ?t \<noteq> 0"
    and nb: "map idx (n # ns) = drop k (nbr F ?t)"
    and wfn: "\<forall>x \<in> set (n # ns). idx x < ?N \<and> site_at F (idx x) = x"
    by (simp_all add: visit_pre_def k_def)
  note D = trim_invD [OF inv]
  have k: "p ?t = k" by (simp add: k_def)
  have kl: "k < length (nbr F ?t)"
    using nb by (cases "k < length (nbr F ?t)") simp_all
  have tgt: "nbr F ?t ! k = ?u"
    using nb kl by (metis list.simps(9) nth_via_drop)
  have rest: "map idx ns = drop (?p1 ?t) (nbr F ?t)"
    using nb kl by (metis Cons_nth_drop_Suc fun_upd_same list.inject list.simps(9))
  have u: "?u < ?N" and su: "site_at F ?u = n" and wfns: "\<forall>x \<in> set ns. idx x < ?N \<and> site_at F (idx x) = x"
    using wfn by simp_all
  have uV: "?u < length V" and uC: "?u < length C" using u D(1,2) by simp_all
  show ?thesis
  proof (cases "V ! ?u")
    case False
    then have nval: "\<not> site_is_valid V n" by (simp add: site_is_valid_def)
    have eq: "visit_neighbors F s (n # ns) (V, C) = visit_neighbors F s ns (V, C)"
      using nval by (rule visit_neighbors_skip)
    have inv1: "trim_inv F V0 C0 (V, C) ?p1"
      using inv t nv fr cs k kl False unfolding tgt [symmetric] by (rule inv_skip)
    have "visit_pre F V0 C0 s ns (V, C) ?p1"
      using wf t sa inv1 nv fr cs rest wfns by (simp add: visit_pre_def)
    from IH_skip [OF nval this] obtain p' V' C' where
      r: "visit_neighbors F s ns (V, C) = (V', C')"
      and inv': "trim_inv F V0 C0 (V', C') p'"
      and frame: "trim_frame F ?t (V, C) ?p1 (V', C') p'"
      and full: "p' ?t = length (nbr F ?t)" and same: "C' ! ?t = C ! ?t"
      unfolding visit_post_def by (cases "visit_neighbors F s ns (V, C)") auto
    note FD = trim_frameD [OF frame]
    have "trim_frame F ?t (V, C) p (V', C') p'"
    proof (rule trim_frameI)
      show "V ! j" if "j < ?N" "V' ! j" for j using that by (rule FD(1))
      show "C' ! j = C ! j \<and> p' j = p j" if "j < ?N" "\<not> V ! j" "j \<noteq> ?t" for j
        using FD(2) [OF that] that(3) by simp
      show "C' ! j = 0" if "j < ?N" "V ! j" "\<not> V' ! j" for j using that by (rule FD(3))
    qed
    with inv' full same show ?thesis
      unfolding visit_post_def eq r by auto
  next
    case True
    then have val: "site_is_valid V n" using uV by (simp add: site_is_valid_def)
    have ut: "?u \<noteq> ?t" using True nv by auto
    let ?C1 = "C[?u := C ! ?u - 1]"
    show ?thesis
    proof (cases "sint (C ! ?u - 1) < min_neighbours (lattice F)")
      case above: False
      have eq: "visit_neighbors F s (n # ns) (V, C) = visit_neighbors F s ns (V, ?C1)"
        using val uC above by (rule visit_neighbors_decrement)
      have inv1: "trim_inv F V0 C0 (V, ?C1) ?p1"
        using inv t nv fr cs k kl tgt u True above by (rule inv_decrement)
      have "visit_pre F V0 C0 s ns (V, ?C1) ?p1"
        using wf t sa inv1 nv fr cs rest wfns ut by (simp add: visit_pre_def)
      from IH_dec [OF val above this] obtain p' V' C' where
        r: "visit_neighbors F s ns (V, ?C1) = (V', C')"
        and inv': "trim_inv F V0 C0 (V', C') p'"
        and frame: "trim_frame F ?t (V, ?C1) ?p1 (V', C') p'"
        and full: "p' ?t = length (nbr F ?t)" and same: "C' ! ?t = ?C1 ! ?t"
        unfolding visit_post_def by (cases "visit_neighbors F s ns (V, ?C1)") auto
      note FD = trim_frameD [OF frame]
      have "trim_frame F ?t (V, C) p (V', C') p'"
      proof (rule trim_frameI)
        show "V ! j" if "j < ?N" "V' ! j" for j using that by (rule FD(1))
        show "C' ! j = C ! j \<and> p' j = p j" if "j < ?N" "\<not> V ! j" "j \<noteq> ?t" for j
        proof -
          have "j \<noteq> ?u" using that(2) True by auto
          then show ?thesis using FD(2) [OF that] that(3) by simp
        qed
        show "C' ! j = 0" if "j < ?N" "V ! j" "\<not> V' ! j" for j using that by (rule FD(3))
      qed
      moreover have "C' ! ?t = C ! ?t" using same ut by simp
      ultimately show ?thesis
        using inv' full unfolding visit_post_def eq r by auto
    next
      case below: True
      let ?V1 = "V[?u := False]"
      let ?st2 = "clear_neighbors F n (?V1, ?C1)"
      have eq: "visit_neighbors F s (n # ns) (V, C) = visit_neighbors F s ns ?st2"
        using val uC below by (rule visit_neighbors_invalidate)
      have inv1: "trim_inv F V0 C0 (?V1, ?C1) ?p1"
        and cv: "C ! ?u - 1 = clear_value F V0 C0 ?u" and pu: "p ?u = 0"
        using inv_invalidate [OF inv t nv fr cs k kl tgt u True below] by simp_all
      have "clear_pre F V0 C0 n (?V1, ?C1) ?p1"
        using wf u su inv1 uV uC cv pu ut by (simp add: clear_pre_def)
      from IH_clear [OF val below this] obtain p2 V2 C2 where
        r2: "?st2 = (V2, C2)"
        and inv2: "trim_inv F V0 C0 (V2, C2) p2"
        and frame2: "trim_frame F ?u (?V1, ?C1) ?p1 (V2, C2) p2"
        and zero2: "C2 ! ?u = 0"
        unfolding clear_post_def by (cases ?st2) auto
      note F2 = trim_frameD [OF frame2]
      have nv1: "\<not> ?V1 ! ?t" using nv ut by simp
      have nv2: "\<not> V2 ! ?t" using F2(1) [OF t] nv1 by blast
      have keep2: "C2 ! ?t = C ! ?t" "p2 ?t = Suc k"
        using F2(2) [OF t nv1] ut by simp_all
      have "visit_pre F V0 C0 s ns (V2, C2) p2"
        using wf t sa inv2 nv2 fr cs keep2 rest wfns by (simp add: visit_pre_def)
      then have "visit_pre F V0 C0 s ns ?st2 p2" by (simp only: r2)
      from IH_after [OF val below this] obtain p3 V3 C3 where
        r3: "visit_neighbors F s ns ?st2 = (V3, C3)"
        and inv3: "trim_inv F V0 C0 (V3, C3) p3"
        and frame3: "trim_frame F ?t (V2, C2) p2 (V3, C3) p3"
        and full: "p3 ?t = length (nbr F ?t)" and same: "C3 ! ?t = C2 ! ?t"
        unfolding visit_post_def r2 by (cases "visit_neighbors F s ns (V2, C2)") auto
      note F3 = trim_frameD [OF frame3]
      have mono1: "V ! j" if "j < ?N" "?V1 ! j" for j
        using that uV by (cases "j = ?u") simp_all
      have "trim_frame F ?t (V, C) p (V3, C3) p3"
      proof (rule trim_frameI)
        show "V ! j" if "j < ?N" "V3 ! j" for j
          using mono1 [OF that(1)] F2(1) [OF that(1)] F3(1) [OF that] by blast
        show "C3 ! j = C ! j \<and> p3 j = p j" if j: "j < ?N" "\<not> V ! j" "j \<noteq> ?t" for j
        proof -
          have ju: "j \<noteq> ?u" using j(2) True by auto
          have j1: "\<not> ?V1 ! j" using j(2) ju by simp
          have j2: "\<not> V2 ! j" using F2(1) [OF j(1)] j1 by blast
          have "C2 ! j = C ! j \<and> p2 j = p j"
            using F2(2) [OF j(1) j1 ju] ju j(3) by simp
          then show ?thesis using F3(2) [OF j(1) j2 j(3)] by simp
        qed
        show "C3 ! j = 0" if j: "j < ?N" "V ! j" "\<not> V3 ! j" for j
        proof -
          have jt: "j \<noteq> ?t" using j(2) nv by auto
          show ?thesis
          proof (cases "V2 ! j")
            case True
            then show ?thesis using F3(3) [OF j(1) _ j(3)] by simp
          next
            case False
            have "C2 ! j = 0"
            proof (cases "j = ?u")
              case True
              then show ?thesis using zero2 by simp
            next
              case ju: False
              then have "?V1 ! j" using j(2) by simp
              then show ?thesis using F2(3) [OF j(1) _ False] by simp
            qed
            then show ?thesis using F3(2) [OF j(1) False jt] by simp
          qed
        qed
      qed
      moreover have "C3 ! ?t = C ! ?t" using same keep2 by simp
      ultimately show ?thesis
        using inv3 full unfolding visit_post_def eq r3 by auto
    qed
  qed
qed

lemma clear_visit_spec:
  "clear_pre F V0 C0 s st p \<Longrightarrow> clear_post F V0 C0 s st p (clear_neighbors F s st)"
  "visit_pre F V0 C0 s ns st p \<Longrightarrow> visit_post F V0 C0 s st p (visit_neighbors F s ns st)"
proof (induction F s st and F s ns st arbitrary: p and p
    rule: clear_neighbors_visit_neighbors.induct)
  case (1 F s V C)
  show ?case by (rule clear_case [OF 1(2)]) (rule 1(1))
next
  case (2 F s V C)
  then show ?case by (rule visit_nil_case)
next
  case (3 F s n ns V C)
  have uC: "idx n < length C"
    using 3(5) trim_invD(2) [of F V0 C0 V C p] by (simp add: visit_pre_def)
  then have upd: "C[idx n := C ! idx n - 1] ! idx n = C ! idx n - 1" by simp
  show ?case
  proof (rule visit_cons_case [OF 3(5)])
    show "visit_post F V0 C0 s (V, C) q (visit_neighbors F s ns (V, C))"
      if "\<not> site_is_valid V n" "visit_pre F V0 C0 s ns (V, C) q" for q
      using that by (rule 3(1))
    show "clear_post F V0 C0 n (V[idx n := False], C[idx n := C ! idx n - 1]) q
            (clear_neighbors F n (V[idx n := False], C[idx n := C ! idx n - 1]))"
      if "site_is_valid V n" "sint (C ! idx n - 1) < min_neighbours (lattice F)"
        "clear_pre F V0 C0 n (V[idx n := False], C[idx n := C ! idx n - 1]) q" for q
      using that upd by (intro 3(2)) simp_all
    show "visit_post F V0 C0 s
            (clear_neighbors F n (V[idx n := False], C[idx n := C ! idx n - 1])) q
            (visit_neighbors F s ns
               (clear_neighbors F n (V[idx n := False], C[idx n := C ! idx n - 1])))"
      if "site_is_valid V n" "sint (C ! idx n - 1) < min_neighbours (lattice F)"
        "visit_pre F V0 C0 s ns
           (clear_neighbors F n (V[idx n := False], C[idx n := C ! idx n - 1])) q" for q
      using that upd by (intro 3(3)) simp_all
    show "visit_post F V0 C0 s (V, C[idx n := C ! idx n - 1]) q
            (visit_neighbors F s ns (V, C[idx n := C ! idx n - 1]))"
      if "site_is_valid V n" "\<not> sint (C ! idx n - 1) < min_neighbours (lattice F)"
        "visit_pre F V0 C0 s ns (V, C[idx n := C ! idx n - 1]) q" for q
      using that upd by (intro 3(4)) simp_all
  qed
qed

section \<open>EdgeTrimmer: the pass over a list of sites, proofs\<close>

lemma trim_edges_in_order_sites: "trim_edges F = trim_edges_in_order F (sites F)"
  by (simp add: trim_edges_def trim_edges_in_order_def)

lemma trim_inv_initial:
  assumes "length V0 = nat (num_sites F)" "length C0 = nat (num_sites F)"
  shows "trim_inv F V0 C0 (V0, C0) (\<lambda>j. 0)"
proof (rule trim_invI)
  show "length V0 = nat (num_sites F)" "length C0 = nat (num_sites F)" by (rule assms)+
  show "0 \<le> length (nbr F j)" for j by simp
  show "\<not> V0 ! j \<and> fires F V0 C0 j" if "0 < (0::nat)" for j using that by simp
  show "V0 ! v \<and> C0 ! v = C0 ! v - word_of_nat (hits F (\<lambda>j. 0) v)
        \<and> (\<forall>d. 1 \<le> d \<and> d \<le> hits F (\<lambda>j. 0) v \<longrightarrow> \<not> trig F C0 v d)"
    if "V0 ! v" for v using that by simp
  show "v \<in> doomed F V0 C0" if "v < nat (num_sites F)" "\<not> V0 ! v" for v
    using that by (rule doomed.init)
  show "0 = done_at F V0 C0 j" if "\<not> V0 ! j" "C0 ! j = 0" for j
    using that by (simp add: done_at_def fires_def clear_value_def)
qed

lemma top_inv_initial:
  assumes "length V0 = nat (num_sites F)" "length C0 = nat (num_sites F)"
  shows "top_inv F V0 C0 {} (V0, C0) (\<lambda>j. 0)"
  using trim_inv_initial [OF assms] by (simp add: top_inv_def)

lemma trim_step_top:
  assumes wf: "wf_foundation F"
    and s: "idx s < nat (num_sites F)" "site_at F (idx s) = s"
    and top: "top_inv F V0 C0 X st p"
  shows "\<exists>p'. top_inv F V0 C0 (insert (idx s) X) (trim_step F s st) p'"
proof -
  obtain V C where st: "st = (V, C)" by (cases st)
  let ?t = "idx s" and ?N = "nat (num_sites F)"
  from top have inv: "trim_inv F V0 C0 (V, C) p"
    and pend: "\<And>j. j < ?N \<Longrightarrow> \<not> V ! j \<Longrightarrow> C ! j \<noteq> 0 \<Longrightarrow>
                 \<not> V0 ! j \<and> C ! j = C0 ! j \<and> p j = 0 \<and> j \<notin> X"
    by (simp_all add: top_inv_def st)
  note D = trim_invD [OF inv]
  show ?thesis
  proof (cases "V ! ?t")
    case True
    then have "trim_step F s st = st"
      using s(1) D(1) by (simp add: trim_step_def st site_is_valid_def)
    moreover have "top_inv F V0 C0 (insert ?t X) (V, C) p"
      using inv pend True by (auto simp: top_inv_def)
    ultimately show ?thesis by (auto simp: st)
  next
    case nv: False
    then have step: "trim_step F s st = clear_neighbors F s (V, C)"
      by (simp add: trim_step_def st site_is_valid_def)
    show ?thesis
    proof (cases "C ! ?t = 0")
      case True
      then have "clear_neighbors F s (V, C) = (V, C)"
        by (simp add: clear_neighbors.simps)
      moreover have "top_inv F V0 C0 (insert ?t X) (V, C) p"
        using inv pend True by (auto simp: top_inv_def)
      ultimately show ?thesis unfolding step by auto
    next
      case False
      from pend [OF s(1) nv False]
      have t0: "\<not> V0 ! ?t" "C ! ?t = C0 ! ?t" "p ?t = 0" by simp_all
      have "clear_pre F V0 C0 s (V, C) p"
        using wf s inv nv t0 by (simp add: clear_pre_def clear_value_def)
      from clear_visit_spec(1) [OF this] obtain p' V' C' where
        r: "clear_neighbors F s (V, C) = (V', C')"
        and inv': "trim_inv F V0 C0 (V', C') p'"
        and frame: "trim_frame F ?t (V, C) p (V', C') p'"
        and zero: "C' ! ?t = 0"
        unfolding clear_post_def by (cases "clear_neighbors F s (V, C)") auto
      note FD = trim_frameD [OF frame]
      have "\<not> V0 ! j \<and> C' ! j = C0 ! j \<and> p' j = 0 \<and> j \<notin> insert ?t X"
        if j: "j < ?N" "\<not> V' ! j" "C' ! j \<noteq> 0" for j
      proof -
        have jt: "j \<noteq> ?t" using j(3) zero by auto
        have nj: "\<not> V ! j" using FD(3) [OF j(1) _ j(2)] j(3) by blast
        have "C' ! j = C ! j \<and> p' j = p j" using FD(2) [OF j(1) nj jt] .
        then show ?thesis using pend [OF j(1) nj] j(3) jt by simp
      qed
      then have "top_inv F V0 C0 (insert ?t X) (V', C') p'"
        using inv' by (simp add: top_inv_def)
      then show ?thesis unfolding step r by auto
    qed
  qed
qed

lemma trim_fold_top:
  assumes wf: "wf_foundation F"
    and ord: "\<forall>s \<in> set order. idx s < nat (num_sites F) \<and> site_at F (idx s) = s"
    and top: "top_inv F V0 C0 X st p"
  shows "\<exists>p'. top_inv F V0 C0 (X \<union> idx ` set order) (fold (trim_step F) order st) p'"
  using ord top
proof (induction order arbitrary: X st p)
  case Nil
  then show ?case by auto
next
  case (Cons s order)
  from Cons.prems(1) have s: "idx s < nat (num_sites F)" "site_at F (idx s) = s"
    and rest: "\<forall>s \<in> set order. idx s < nat (num_sites F) \<and> site_at F (idx s) = s"
    by simp_all
  from trim_step_top [OF wf s Cons.prems(2)] obtain p1 where
    "top_inv F V0 C0 (insert (idx s) X) (trim_step F s st) p1" by blast
  from Cons.IH [OF rest this] show ?case by simp
qed

lemma trim_final_doomed:
  assumes inv: "trim_inv F V0 C0 (V, C) p"
    and cleared: "\<forall>j < nat (num_sites F). \<not> V ! j \<longrightarrow> C ! j = 0"
    and v: "v < nat (num_sites F)"
  shows "V ! v \<longleftrightarrow> v \<notin> doomed F V0 C0"
proof
  note D = trim_invD [OF inv]
  have "\<not> V ! u" if "u \<in> doomed F V0 C0" for u
    using that
  proof (induction rule: doomed.induct)
    case (init u)
    then show ?case using D(5) [of u] by blast
  next
    case (step u q)
    show ?case
    proof
      assume Vu: "V ! u"
      have le: "q j \<le> p j" if j: "j < nat (num_sites F)" for j
      proof (cases "0 < q j")
        case False
        then show ?thesis by simp
      next
        case True
        have nj: "\<not> V ! j" and fj: "fires F V0 C0 j"
          using step.hyps step.IH j True by blast+
        from cleared j nj have "C ! j = 0" by simp
        from D(7) [OF j nj this] fj have "p j = length (nbr F j)" by (simp add: done_at_def)
        moreover have "q j \<le> length (nbr F j)" using step.hyps j by blast
        ultimately show ?thesis by simp
      qed
      then have "hits F q u \<le> hits F p u" by (intro hits_mono) simp
      moreover have tr: "trig F C0 u (hits F q u)" using step.hyps by blast
      moreover have "1 \<le> hits F q u" using tr by (simp add: trig_def)
      moreover have "u < nat (num_sites F)" using step.hyps by blast
      ultimately have "\<not> trig F C0 u (hits F q u)"
        using D(5) [OF _ Vu] by blast
      with tr show False by contradiction
    qed
  qed
  then show "V ! v \<Longrightarrow> v \<notin> doomed F V0 C0" by blast
  show "v \<notin> doomed F V0 C0 \<Longrightarrow> V ! v" using D(6) [OF v] by blast
qed

lemma sites_wf:
  assumes "s \<in> set (sites F)"
  shows "idx s < nat (num_sites F)" "site_at F (idx s) = s"
  using assms by (auto simp: sites_def)

lemma trim_in_order_final:
  assumes wf: "wf_foundation F"
    and ord: "set order \<subseteq> set (sites F)"
    and cover: "\<forall>s \<in> set (sites F). \<not> is_valid F ! idx s \<longrightarrow> s \<in> set order"
  shows "\<exists>V C p. fold (trim_step F) order (is_valid F, count_neighbors F) = (V, C)
           \<and> trim_inv F (is_valid F) (count_neighbors F) (V, C) p
           \<and> (\<forall>j < nat (num_sites F). \<not> V ! j \<longrightarrow> C ! j = 0)"
proof -
  let ?N = "nat (num_sites F)" and ?V0 = "is_valid F" and ?C0 = "count_neighbors F"
  have len: "length ?V0 = ?N" "length ?C0 = ?N"
    using wf by (simp_all add: wf_foundation_def length_count_neighbors)
  have ord': "\<forall>s \<in> set order. idx s < ?N \<and> site_at F (idx s) = s"
    using ord sites_wf by blast
  from trim_fold_top [OF wf ord' top_inv_initial [OF len]] obtain p where
    top: "top_inv F ?V0 ?C0 ({} \<union> idx ` set order) (fold (trim_step F) order (?V0, ?C0)) p"
    by blast
  obtain V C where r: "fold (trim_step F) order (?V0, ?C0) = (V, C)"
    by (cases "fold (trim_step F) order (?V0, ?C0)")
  from top have inv: "trim_inv F ?V0 ?C0 (V, C) p"
    and pend: "\<And>j. j < ?N \<Longrightarrow> \<not> V ! j \<Longrightarrow> C ! j \<noteq> 0 \<Longrightarrow>
                 \<not> ?V0 ! j \<and> j \<notin> idx ` set order"
    by (simp_all add: top_inv_def r)
  have "C ! j = 0" if j: "j < ?N" "\<not> V ! j" for j
  proof (rule ccontr)
    assume "C ! j \<noteq> 0"
    from pend [OF j this] have nv: "\<not> ?V0 ! j" and out: "j \<notin> idx ` set order" by simp_all
    have "site_at F j \<in> set (sites F)" using j(1) by (simp add: sites_def)
    with cover nv have "site_at F j \<in> set order" by simp
    then have "j \<in> idx ` set order" by (metis image_eqI site_at_simps(1))
    with out show False by contradiction
  qed
  with r inv show ?thesis by blast
qed

lemma trim_in_order_doomed:
  assumes wf: "wf_foundation F"
    and ord: "set order \<subseteq> set (sites F)"
    and cover: "\<forall>s \<in> set (sites F). \<not> is_valid F ! idx s \<longrightarrow> s \<in> set order"
  shows "is_valid (trim_edges_in_order F order)
         = map (\<lambda>v. v \<notin> doomed F (is_valid F) (count_neighbors F)) [0..<nat (num_sites F)]"
proof -
  from trim_in_order_final [OF assms] obtain V C p where
    r: "fold (trim_step F) order (is_valid F, count_neighbors F) = (V, C)"
    and inv: "trim_inv F (is_valid F) (count_neighbors F) (V, C) p"
    and cl: "\<forall>j < nat (num_sites F). \<not> V ! j \<longrightarrow> C ! j = 0"
    by blast
  have "V = map (\<lambda>v. v \<notin> doomed F (is_valid F) (count_neighbors F)) [0..<nat (num_sites F)]"
    using trim_final_doomed [OF inv cl] trim_invD(1) [OF inv]
    by (simp add: list_eq_iff_nth_eq)
  then show ?thesis by (simp add: trim_edges_in_order_def r)
qed

text \<open>
  C4. The loop of \<^verbatim>\<open>trim_edges\<close> run over any list of sites of the Foundation that
  contains every initially invalid site produces the same \<open>is_valid\<close> array: two such
  orders agree with each other and with the flat-index order of the source.
\<close>

theorem trim_order_independent:
  assumes "wf_foundation F"
    and "set order1 \<subseteq> set (sites F)"
    and "\<forall>s \<in> set (sites F). \<not> is_valid F ! idx s \<longrightarrow> s \<in> set order1"
    and "set order2 \<subseteq> set (sites F)"
    and "\<forall>s \<in> set (sites F). \<not> is_valid F ! idx s \<longrightarrow> s \<in> set order2"
  shows "trim_edges_in_order F order1 = trim_edges_in_order F order2
       \<and> trim_edges_in_order F order1 = trim_edges F"
proof -
  have 1: "is_valid (trim_edges_in_order F order1)
           = map (\<lambda>v. v \<notin> doomed F (is_valid F) (count_neighbors F)) [0..<nat (num_sites F)]"
    using assms(1,2,3) by (rule trim_in_order_doomed)
  have 2: "is_valid (trim_edges_in_order F order2)
           = map (\<lambda>v. v \<notin> doomed F (is_valid F) (count_neighbors F)) [0..<nat (num_sites F)]"
    using assms(1,4,5) by (rule trim_in_order_doomed)
  have 3: "is_valid (trim_edges_in_order F (sites F))
           = map (\<lambda>v. v \<notin> doomed F (is_valid F) (count_neighbors F)) [0..<nat (num_sites F)]"
    using assms(1) by (intro trim_in_order_doomed) simp_all
  have e: "trim_edges_in_order F a = trim_edges_in_order F b"
    if "is_valid (trim_edges_in_order F a) = is_valid (trim_edges_in_order F b)" for a b
    using that by (simp add: trim_edges_in_order_def)
  show ?thesis
    using e [of order1 order2] e [of order1 "sites F"] 1 2 3
    by (simp add: trim_edges_in_order_sites)
qed

lemma chain_example_sites:
  "sites chain_example
   = [\<lparr>index = (0, 0, 0), sublattice = 0, idx = 0\<rparr>, \<lparr>index = (1, 0, 0), sublattice = 0, idx = 1\<rparr>,
      \<lparr>index = (2, 0, 0), sublattice = 0, idx = 2\<rparr>, \<lparr>index = (3, 0, 0), sublattice = 0, idx = 3\<rparr>]"
  by code_simp

lemma chain_example_wf: "wf_foundation chain_example"
  by (simp add: wf_foundation_def chain_example_def chain_lattice_def prod3_def)

lemma chain_example_trim:
  "is_valid (trim_edges chain_example) = [False, False, True, True]"
  by code_simp

lemma gap_example_sites:
  "sites gap_example
   = [\<lparr>index = (0, 0, 0), sublattice = 0, idx = 0\<rparr>, \<lparr>index = (1, 0, 0), sublattice = 0, idx = 1\<rparr>,
      \<lparr>index = (2, 0, 0), sublattice = 0, idx = 2\<rparr>, \<lparr>index = (3, 0, 0), sublattice = 0, idx = 3\<rparr>,
      \<lparr>index = (4, 0, 0), sublattice = 0, idx = 4\<rparr>]"
  by code_simp

lemma gap_example_wf: "wf_foundation gap_example"
  by (simp add: wf_foundation_def gap_example_def chain_lattice_def prod3_def)

text \<open>
  The two invalid sites in both orders: the states after the first call differ, the final
  arrays agree.
\<close>

theorem trim_order_independent_witness:
  "wf_foundation gap_example
   \<and> is_valid gap_example = [False, True, False, True, True]
   \<and> set [site_at gap_example 0, site_at gap_example 2] \<subseteq> set (sites gap_example)
   \<and> set [site_at gap_example 2, site_at gap_example 0] \<subseteq> set (sites gap_example)
   \<and> trim_step gap_example (site_at gap_example 0) (is_valid gap_example, count_neighbors gap_example)
       = ([False, True, False, True, True], [0, 1, 2, 2, 1])
   \<and> trim_step gap_example (site_at gap_example 2) (is_valid gap_example, count_neighbors gap_example)
       = ([False, True, False, True, True], [1, 1, 0, 1, 1])
   \<and> trim_edges_in_order gap_example [site_at gap_example 0, site_at gap_example 2]
       = trim_edges_in_order gap_example [site_at gap_example 2, site_at gap_example 0]
   \<and> trim_edges_in_order gap_example [site_at gap_example 0, site_at gap_example 2]
       = trim_edges gap_example
   \<and> is_valid (trim_edges gap_example) = [False, False, False, True, True]"
proof -
  have v: "is_valid gap_example = [False, True, False, True, True]"
    by (simp add: gap_example_def)
  have o1: "set [site_at gap_example 0, site_at gap_example 2] \<subseteq> set (sites gap_example)"
    by (simp add: sites_def gap_example_def)
  have o2: "set [site_at gap_example 2, site_at gap_example 0] \<subseteq> set (sites gap_example)"
    by (simp add: sites_def gap_example_def)
  have c1: "\<forall>s \<in> set (sites gap_example).
              \<not> is_valid gap_example ! idx s \<longrightarrow>
              s \<in> set [site_at gap_example 0, site_at gap_example 2]"
    unfolding gap_example_sites by (simp add: gap_example_def site_at_def)
  have c2: "\<forall>s \<in> set (sites gap_example).
              \<not> is_valid gap_example ! idx s \<longrightarrow>
              s \<in> set [site_at gap_example 2, site_at gap_example 0]"
    unfolding gap_example_sites by (simp add: gap_example_def site_at_def)
  have s1: "trim_step gap_example (site_at gap_example 0)
              (is_valid gap_example, count_neighbors gap_example)
            = ([False, True, False, True, True], [0, 1, 2, 2, 1])"
    by code_simp
  have s2: "trim_step gap_example (site_at gap_example 2)
              (is_valid gap_example, count_neighbors gap_example)
            = ([False, True, False, True, True], [1, 1, 0, 1, 1])"
    by code_simp
  have t: "is_valid (trim_edges gap_example) = [False, False, False, True, True]"
    by code_simp
  from trim_order_independent [OF gap_example_wf o1 c1 o2 c2]
  have e1: "trim_edges_in_order gap_example [site_at gap_example 0, site_at gap_example 2]
            = trim_edges_in_order gap_example [site_at gap_example 2, site_at gap_example 0]"
    and e2: "trim_edges_in_order gap_example [site_at gap_example 0, site_at gap_example 2]
            = trim_edges gap_example"
    by blast+
  from gap_example_wf v o1 o2 s1 s2 e1 e2 t show ?thesis by blast
qed

section \<open>Foundation construction: proofs\<close>








section \<open>Symmetric neighbour relations: proofs\<close>

lemma symmetric_neighboursD:
  "symmetric_neighbours F \<Longrightarrow> i < nat (num_sites F) \<Longrightarrow> j < nat (num_sites F) \<Longrightarrow>
   count_list (nbr F i) j = count_list (nbr F j) i"
  by (simp add: symmetric_neighbours_def list_all_iff)

lemma nbr_less:
  assumes "wf_foundation F" "i < nat (num_sites F)" "j \<in> set (nbr F i)"
  shows "j < nat (num_sites F)"
  using assms neighbours_wf(1) [OF assms(1,2)] by (auto simp: nbr_def)

lemma length_nbr:
  "length (nbr F i)
   = length (site_hoppings F (site_at F i)) - length (outside_hoppings F (site_at F i))"
proof -
  have "length (site_hoppings F (site_at F i))
        = length (outside_hoppings F (site_at F i)) + length (nbr F i)"
    unfolding outside_hoppings_def nbr_def neighbours_def length_map
    by (rule sum_length_filter_compl [symmetric])
  then show ?thesis by simp
qed

lemma nbr_bounded:
  assumes wf: "wf_foundation F" and b: "hoppings_bounded F" and i: "i < nat (num_sites F)"
  shows "length (nbr F i) \<le> 32767"
proof -
  let ?L = "sublattices (lattice F)"
  have n: "nat (size_n F) = length ?L" using wf by (simp add: wf_foundation_def)
  have "i mod nat (size_n F) < length ?L"
    using wf_size_n_pos [OF wf i] n by simp
  then have "?L ! (i mod nat (size_n F)) \<in> set ?L" by simp
  then have "length (site_hoppings F (site_at F i)) \<le> 32767"
    using b by (simp add: hoppings_bounded_def list_all_iff site_hoppings_def)
  then show ?thesis by (simp add: length_nbr)
qed

lemma count_neighbors_nbr:
  assumes "i < nat (num_sites F)"
  shows "count_neighbors F ! i = word_of_nat (length (nbr F i))"
proof -
  have "length (outside_hoppings F (site_at F i)) \<le> length (site_hoppings F (site_at F i))"
    by (simp add: outside_hoppings_def)
  then show ?thesis
    using assms by (simp add: count_neighbors_nth count_site_closed_form length_nbr)
qed

lemma indegree:
  assumes wf: "wf_foundation F" and sym: "symmetric_neighbours F" and j: "j < nat (num_sites F)"
  shows "(\<Sum>i<nat (num_sites F). count_list (nbr F i) j) = length (nbr F j)"
proof -
  have "(\<Sum>i<nat (num_sites F). count_list (nbr F i) j)
        = (\<Sum>i<nat (num_sites F). count_list (nbr F j) i)"
    by (rule sum.cong) (simp_all add: symmetric_neighboursD [OF sym _ j])
  also have "\<dots> = length (nbr F j)"
    by (rule sum_count_set) (use nbr_less [OF wf j] in auto)
  finally show ?thesis .
qed

lemma small_word_of_nat_eq:
  assumes "word_of_nat a = (word_of_nat b :: int16)" "a \<le> 32767" "b \<le> 32767"
  shows "a = b"
proof -
  have "take_bit 16 a = take_bit 16 b"
    using assms(1) by (simp add: word_of_nat_eq_iff)
  moreover have "take_bit 16 a = a" "take_bit 16 b = b"
    using assms(2,3) by (simp_all add: take_bit_nat_eq_self_iff)
  ultimately show ?thesis by simp
qed

lemma sum_count_filter:
  fixes n :: nat
  assumes "set xs \<subseteq> {..<n}"
  shows "(\<Sum>i<n. if P i then count_list xs i else 0) = length (filter P xs)"
  using assms
proof (induction xs)
  case Nil
  show ?case by (simp cong: if_cong)
next
  case (Cons x xs)
  then have x: "x \<in> {..<n}" and xs: "set xs \<subseteq> {..<n}" by simp_all
  have "(\<Sum>i<n. if P i then count_list (x # xs) i else 0)
        = (\<Sum>i<n. (if P i then count_list xs i else 0) + (if x = i then (if P i then 1 else 0) else 0))"
    by (rule sum.cong) auto
  also have "\<dots> = (\<Sum>i<n. if P i then count_list xs i else 0)
                  + (\<Sum>i<n. if x = i then (if P i then 1 else 0) else 0)"
    by (rule sum.distrib)
  also have "(\<Sum>i<n. if x = i then (if P i then 1 else 0) else 0)
             = (if x \<in> {..<n} then (if P x then 1 else 0) else (0::nat))"
    by (rule sum.delta') simp
  finally show ?case using Cons.IH [OF xs] x by simp
qed

section \<open>EdgeTrimmer: the final state under symmetry\<close>

lemma hits_le:
  assumes "\<And>j. j < nat (num_sites F) \<Longrightarrow>
             count_list (take (q j) (nbr F j)) v \<le> count_list (take (p j) (nbr F j)) v"
  shows "hits F q v \<le> hits F p v"
  unfolding hits_def by (rule sum_mono) (simp add: assms)

lemma count_list_take_le: "count_list (take a xs) v \<le> count_list xs v"
  using count_list_take_mono [of a "max a (length xs)" xs v] by simp

lemma final_pointer:
  assumes inv: "trim_inv F V0 C0 (V, C) p"
    and cl: "\<forall>j < nat (num_sites F). \<not> V ! j \<longrightarrow> C ! j = 0"
    and j: "j < nat (num_sites F)"
  shows "p j = (if V ! j then 0 else done_at F V0 C0 j)"
proof (cases "V ! j")
  case True
  then show ?thesis using trim_invD(4) [OF inv j] by auto
next
  case False
  then show ?thesis using trim_invD(7) [OF inv j False] cl j by simp
qed

lemma nonfire_isolated:
  assumes wf: "wf_foundation F" and sym: "symmetric_neighbours F" and b: "hoppings_bounded F"
    and inv: "trim_inv F V0 (count_neighbors F) (V, C) p"
    and cl: "\<forall>j < nat (num_sites F). \<not> V ! j \<longrightarrow> C ! j = 0"
    and j: "j < nat (num_sites F)" "\<not> V ! j" "\<not> fires F V0 (count_neighbors F) j"
    and u: "u < nat (num_sites F)" "V ! u"
  shows "count_list (nbr F j) u = 0"
proof (cases "V0 ! j")
  case False
  then have "count_neighbors F ! j = 0"
    using j(3) by (simp add: fires_def clear_value_def)
  then have "word_of_nat (length (nbr F j)) = (word_of_nat 0 :: int16)"
    using count_neighbors_nbr [OF j(1)] by simp
  then have "length (nbr F j) = 0"
    using nbr_bounded [OF wf b j(1)] by (intro small_word_of_nat_eq) simp_all
  then show ?thesis by simp
next
  case True
  let ?N = "nat (num_sites F)" and ?C0 = "count_neighbors F"
  note D = trim_invD [OF inv]
  have jd: "j \<in> doomed F V0 ?C0" using D(6) [OF j(1,2)] .
  from jd True obtain q where
    qd: "\<forall>i<?N. 0 < q i \<longrightarrow> i \<in> doomed F V0 ?C0 \<and> fires F V0 ?C0 i"
    and tr: "trig F ?C0 j (hits F q j)"
    by (cases rule: doomed.cases) auto
  have ft: "first_trig F ?C0 j \<le> hits F q j"
    unfolding first_trig_def by (rule Least_le) (rule tr)
  have qp: "count_list (take (q i) (nbr F i)) j \<le> count_list (take (p i) (nbr F i)) j"
    if i: "i < ?N" for i
  proof (cases "0 < q i")
    case False
    then show ?thesis by simp
  next
    case True
    with qd i have "i \<in> doomed F V0 ?C0" and fi: "fires F V0 ?C0 i" by simp_all
    then have "\<not> V ! i" using trim_final_doomed [OF inv cl i] by simp
    then have "p i = length (nbr F i)"
      using final_pointer [OF inv cl i] fi by (simp add: done_at_def)
    then show ?thesis by (simp add: count_list_take_le)
  qed
  have hq: "hits F q j \<le> hits F p j" using qp by (rule hits_le)
  have hp: "hits F p j \<le> (\<Sum>i<?N. count_list (nbr F i) j)"
    unfolding hits_def by (rule sum_mono) (rule count_list_take_le)
  have ind: "(\<Sum>i<?N. count_list (nbr F i) j) = length (nbr F j)"
    using wf sym j(1) by (rule indegree)
  have "?C0 ! j - word_of_nat (first_trig F ?C0 j) = 0"
    using j(3) True by (simp add: fires_def clear_value_def)
  then have "word_of_nat (length (nbr F j)) = (word_of_nat (first_trig F ?C0 j) :: int16)"
    using count_neighbors_nbr [OF j(1)] by simp
  moreover have "first_trig F ?C0 j \<le> length (nbr F j)"
    using ft hq hp ind by simp
  ultimately have "length (nbr F j) = first_trig F ?C0 j"
    using nbr_bounded [OF wf b j(1)] by (intro small_word_of_nat_eq) simp_all
  then have eq: "(\<Sum>i<?N. count_list (take (p i) (nbr F i)) j)
                 = (\<Sum>i<?N. count_list (nbr F i) j)"
    using ft hq hp ind by (simp add: hits_def)
  have "count_list (take (p u) (nbr F u)) j = count_list (nbr F u) j"
    by (rule sum_mono_inv [OF eq]) (use u(1) in \<open>simp_all add: count_list_take_le\<close>)
  moreover have "p u = 0" using final_pointer [OF inv cl u(1)] u(2) by simp
  ultimately have "count_list (nbr F u) j = 0" by simp
  then show ?thesis using symmetric_neighboursD [OF sym j(1) u(1)] by simp
qed

lemma final_hits:
  assumes wf: "wf_foundation F" and sym: "symmetric_neighbours F" and b: "hoppings_bounded F"
    and inv: "trim_inv F V0 (count_neighbors F) (V, C) p"
    and cl: "\<forall>j < nat (num_sites F). \<not> V ! j \<longrightarrow> C ! j = 0"
    and v: "v < nat (num_sites F)" "V ! v"
  shows "hits F p v = length (filter (\<lambda>j. \<not> V ! j) (nbr F v))"
proof -
  let ?N = "nat (num_sites F)" and ?C0 = "count_neighbors F"
  have "hits F p v = (\<Sum>i<?N. if \<not> V ! i then count_list (nbr F v) i else 0)"
    unfolding hits_def
  proof (rule sum.cong [OF refl])
    fix i assume "i \<in> {..<?N}"
    then have i: "i < ?N" by simp
    show "count_list (take (p i) (nbr F i)) v = (if \<not> V ! i then count_list (nbr F v) i else 0)"
    proof (cases "V ! i")
      case True
      then show ?thesis using final_pointer [OF inv cl i] by simp
    next
      case False
      have s: "count_list (nbr F v) i = count_list (nbr F i) v"
        using symmetric_neighboursD [OF sym v(1) i] .
      show ?thesis
      proof (cases "fires F V0 ?C0 i")
        case True
        then have "p i = length (nbr F i)"
          using final_pointer [OF inv cl i] False by (simp add: done_at_def)
        then show ?thesis using False s by simp
      next
        case nf: False
        have "count_list (nbr F i) v = 0"
          using wf sym b inv cl i False nf v by (rule nonfire_isolated)
        moreover have "p i = 0"
          using final_pointer [OF inv cl i] False nf by (simp add: done_at_def)
        ultimately show ?thesis using False s by simp
      qed
    qed
  qed
  also have "\<dots> = length (filter (\<lambda>j. \<not> V ! j) (nbr F v))"
    by (rule sum_count_filter) (use nbr_less [OF wf v(1)] in auto)
  finally show ?thesis .
qed

lemma static_is_valid_update [simp]:
  "nbr (F\<lparr>is_valid := v\<rparr>) = nbr F"
  "sites (F\<lparr>is_valid := v\<rparr>) = sites F"
  "hits (F\<lparr>is_valid := v\<rparr>) = hits F"
  "trig (F\<lparr>is_valid := v\<rparr>) = trig F"
  "symmetric_neighbours (F\<lparr>is_valid := v\<rparr>) = symmetric_neighbours F"
  "hoppings_bounded (F\<lparr>is_valid := v\<rparr>) = hoppings_bounded F"
proof -
  show n: "nbr (F\<lparr>is_valid := v\<rparr>) = nbr F"
    by (rule ext)
       (simp add: nbr_def neighbours_def site_at_def site_hoppings_def out_of_box_def
          shifted_def calc_idx_def cong: filter_cong map_cong)
  show "sites (F\<lparr>is_valid := v\<rparr>) = sites F"
    by (simp add: sites_def site_at_def)
  show "hits (F\<lparr>is_valid := v\<rparr>) = hits F"
    by (intro ext) (simp add: hits_def n)
  show "trig (F\<lparr>is_valid := v\<rparr>) = trig F"
    by (intro ext) (simp add: trig_def)
  show "symmetric_neighbours (F\<lparr>is_valid := v\<rparr>) = symmetric_neighbours F"
    by (simp add: symmetric_neighbours_def n)
  show "hoppings_bounded (F\<lparr>is_valid := v\<rparr>) = hoppings_bounded F"
    by (simp add: hoppings_bounded_def)
qed

lemma wf_is_valid_update:
  "wf_foundation F \<Longrightarrow> length v = nat (num_sites F) \<Longrightarrow> wf_foundation (F\<lparr>is_valid := v\<rparr>)"
  by (simp add: wf_foundation_def)

lemma second_pass_core:
  assumes wf: "wf_foundation F" and sym: "symmetric_neighbours F" and b: "hoppings_bounded F"
    and inv: "trim_inv F V0 (count_neighbors F) (V, C) p"
    and cl: "\<forall>j < nat (num_sites F). \<not> V ! j \<longrightarrow> C ! j = 0"
    and u: "u \<in> doomed (F\<lparr>is_valid := V\<rparr>) V (count_neighbors F)"
  shows "\<not> V ! u"
  using u
proof (induction rule: doomed.induct)
  case (init u)
  then show ?case by simp
next
  case (step u q)
  let ?N = "nat (num_sites F)" and ?C0 = "count_neighbors F"
  note D = trim_invD [OF inv]
  have uN: "u < ?N" and Vu: "V ! u" and tr: "trig F ?C0 u (hits F q u)"
    using step.hyps by simp_all
  have le: "count_list (take (q j) (nbr F j)) u \<le> count_list (take (p j) (nbr F j)) u"
    if j: "j < ?N" for j
  proof (cases "0 < q j")
    case False
    then show ?thesis by simp
  next
    case True
    then have nj: "\<not> V ! j" using step.IH j by simp
    show ?thesis
    proof (cases "fires F V0 ?C0 j")
      case True
      then have "p j = length (nbr F j)"
        using final_pointer [OF inv cl j] nj by (simp add: done_at_def)
      then show ?thesis by (simp add: count_list_take_le)
    next
      case False
      have "count_list (nbr F j) u = 0"
        using wf sym b inv cl j nj False uN Vu by (rule nonfire_isolated)
      then have "count_list (take (q j) (nbr F j)) u = 0"
        using count_list_take_le [of "q j" "nbr F j" u] by simp
      then show ?thesis by simp
    qed
  qed
  have "hits F q u \<le> hits F p u" using le by (rule hits_le)
  moreover have "1 \<le> hits F q u" using tr by (simp add: trig_def)
  ultimately have "\<not> trig F ?C0 u (hits F q u)"
    using D(5) [OF uN Vu] by blast
  with tr show ?case by contradiction
qed

lemma trim_edges_final:
  assumes wf: "wf_foundation F"
  shows "\<exists>C p. trim_inv F (is_valid F) (count_neighbors F) (is_valid (trim_edges F), C) p
          \<and> (\<forall>j < nat (num_sites F). \<not> is_valid (trim_edges F) ! j \<longrightarrow> C ! j = 0)"
proof -
  from trim_in_order_final [OF wf, of "sites F"] obtain V C p where
    r: "fold (trim_step F) (sites F) (is_valid F, count_neighbors F) = (V, C)"
    and inv: "trim_inv F (is_valid F) (count_neighbors F) (V, C) p"
    and cl: "\<forall>j < nat (num_sites F). \<not> V ! j \<longrightarrow> C ! j = 0"
    by auto
  have "is_valid (trim_edges F) = V" by (simp add: trim_edges_def r)
  with inv cl show ?thesis by auto
qed

lemma trim_edges_idempotent_sym:
  assumes wf: "wf_foundation F" and sym: "symmetric_neighbours F" and b: "hoppings_bounded F"
  shows "trim_edges (trim_edges F) = trim_edges F"
proof -
  let ?N = "nat (num_sites F)" and ?C0 = "count_neighbors F"
  from trim_edges_final [OF wf] obtain C p where
    inv: "trim_inv F (is_valid F) ?C0 (is_valid (trim_edges F), C) p"
    and cl: "\<forall>j < ?N. \<not> is_valid (trim_edges F) ! j \<longrightarrow> C ! j = 0"
    by blast
  define V where "V = is_valid (trim_edges F)"
  have F1: "trim_edges F = F\<lparr>is_valid := V\<rparr>"
    by (simp add: V_def trim_edges_def)
  have len: "length V = ?N" using trim_invD(1) [OF inv] by (simp add: V_def)
  have wf1: "wf_foundation (F\<lparr>is_valid := V\<rparr>)"
    using wf len by (rule wf_is_valid_update)
  have 2: "is_valid (trim_edges (F\<lparr>is_valid := V\<rparr>))
        = map (\<lambda>v. v \<notin> doomed (F\<lparr>is_valid := V\<rparr>) V ?C0) [0..<?N]"
    unfolding trim_edges_in_order_sites
    using trim_in_order_doomed [OF wf1, of "sites (F\<lparr>is_valid := V\<rparr>)"]
    by (simp add: count_neighbors_ignores_validity)
  have "(v \<notin> doomed (F\<lparr>is_valid := V\<rparr>) V ?C0) = V ! v" if v: "v < ?N" for v
  proof
    show "v \<notin> doomed (F\<lparr>is_valid := V\<rparr>) V ?C0 \<Longrightarrow> V ! v"
      using doomed.init [of v "F\<lparr>is_valid := V\<rparr>" V ?C0] v by auto
    show "V ! v \<Longrightarrow> v \<notin> doomed (F\<lparr>is_valid := V\<rparr>) V ?C0"
      using second_pass_core [OF wf sym b inv [folded V_def] cl [folded V_def]] by blast
  qed
  then have "map (\<lambda>v. v \<notin> doomed (F\<lparr>is_valid := V\<rparr>) V ?C0) [0..<?N] = V"
    using len by (simp add: list_eq_iff_nth_eq)
  with 2 have "is_valid (trim_edges (F\<lparr>is_valid := V\<rparr>)) = V" by simp
  then have "trim_edges (F\<lparr>is_valid := V\<rparr>) = F\<lparr>is_valid := V\<rparr>"
    by (simp add: trim_edges_def)
  then show ?thesis by (simp add: F1)
qed

section \<open>EdgeTrimmer: monotonicity and untouched counts\<close>

lemma num_valid_le:
  "length V' = length V \<Longrightarrow> (\<forall>i < length V. V' ! i \<longrightarrow> V ! i) \<Longrightarrow> num_valid V' \<le> num_valid V"
proof (induction V' V rule: list_induct2)
  case Nil
  show ?case by simp
next
  case (Cons x xs y ys)
  from Cons.prems have h: "x \<longrightarrow> y" and t: "\<forall>i < length ys. xs ! i \<longrightarrow> ys ! i"
    by auto
  from Cons.IH [OF t] h show ?case by (auto simp: num_valid_def)
qed

lemma clear_visit_num_valid:
  "num_valid (fst (clear_neighbors F s st)) \<le> num_valid (fst st)"
  "num_valid (fst (visit_neighbors F s ns st)) \<le> num_valid (fst st)"
proof -
  show "num_valid (fst (clear_neighbors F s st)) \<le> num_valid (fst st)"
    using clear_visit_length(1) [of F s st] clear_visit_monotone(1) [of F s st]
    by (intro num_valid_le) auto
  show "num_valid (fst (visit_neighbors F s ns st)) \<le> num_valid (fst st)"
    using clear_visit_length(2) [of F s ns st] clear_visit_monotone(2) [of F s ns st]
    by (intro num_valid_le) auto
qed

lemma trim_step_monotone:
  "fst (trim_step F s st) ! i \<Longrightarrow> i < length (fst st) \<Longrightarrow> fst st ! i"
  "length (fst (trim_step F s st)) = length (fst st)"
  using clear_visit_monotone(1) [of F s st i] clear_visit_length(1) [of F s st]
  by (auto simp: trim_step_def split: if_splits)

lemma trim_fold_monotone:
  "length (fst (fold (trim_step F) order st)) = length (fst st)
   \<and> (\<forall>i < length (fst st). fst (fold (trim_step F) order st) ! i \<longrightarrow> fst st ! i)"
proof (induction order arbitrary: st)
  case Nil
  show ?case by simp
next
  case (Cons s order)
  from Cons.IH [of "trim_step F s st"] trim_step_monotone [of F s st]
  show ?case by auto
qed

lemma clear_visit_frame:
  "length (fst st) = length (snd st) \<Longrightarrow> j < length (snd st) \<Longrightarrow> \<not> fst st ! j \<Longrightarrow>
     j \<noteq> idx s \<Longrightarrow> snd (clear_neighbors F s st) ! j = snd st ! j"
  "length (fst st) = length (snd st) \<Longrightarrow> j < length (snd st) \<Longrightarrow> \<not> fst st ! j \<Longrightarrow>
     snd (visit_neighbors F s ns st) ! j = snd st ! j"
proof (induction F s st and F s ns st arbitrary: j and j
    rule: clear_neighbors_visit_neighbors.induct)
  case (1 F s V C)
  show ?case
  proof (cases "C ! idx s = 0")
    case True
    then show ?thesis by (simp add: clear_neighbors.simps)
  next
    case False
    from 1(1) [OF False, of j] 1(2-5) False show ?thesis
      by (simp add: clear_neighbors.simps Let_def)
  qed
next
  case (2 F s V C)
  show ?case by simp
next
  case (3 F s n ns V C)
  from 3(5,6) have len: "length V = length C" and j: "j < length C" by simp_all
  from 3(7) have nj: "\<not> V ! j" by simp
  show ?case
  proof (cases "site_is_valid V n")
    case False
    from 3(1) [OF False, of j] 3(5-7) show ?thesis
      by (simp add: visit_neighbors_skip [OF False])
  next
    case True
    then have uC: "idx n < length C" and Vn: "V ! idx n"
      using len by (simp_all add: site_is_valid_def)
    have jn: "j \<noteq> idx n" using nj Vn by auto
    let ?C1 = "C[idx n := C ! idx n - 1]"
    have upd: "?C1 ! idx n = C ! idx n - 1" using uC by simp
    show ?thesis
    proof (cases "sint (C ! idx n - 1) < min_neighbours (lattice F)")
      case above: False
      then have a': "\<not> sint (?C1 ! idx n) < min_neighbours (lattice F)" by (simp add: upd)
      have "snd (visit_neighbors F s ns (V, ?C1)) ! j = snd (V, ?C1) ! j"
        using len j nj True by (intro 3(4) [OF _ refl a']) simp_all
      then show ?thesis
        using jn by (simp add: visit_neighbors_decrement [OF True uC above])
    next
      case below: True
      then have b': "sint (?C1 ! idx n) < min_neighbours (lattice F)" by (simp add: upd)
      let ?st1 = "(V[idx n := False], ?C1)"
      let ?st2 = "clear_neighbors F n ?st1"
      have l2: "length (fst ?st2) = length (snd ?st2)" "length (snd ?st2) = length C"
        using clear_visit_length(1) [of F n ?st1] len by simp_all
      have nj2: "\<not> fst ?st2 ! j"
        using clear_visit_monotone(1) [of F n ?st1 j] nj j len jn by auto
      have "snd ?st2 ! j = snd ?st1 ! j"
        using len j nj jn True by (intro 3(2) [OF _ refl b']) simp_all
      moreover have "snd (visit_neighbors F s ns ?st2) ! j = snd ?st2 ! j"
        using l2 j nj2 True by (intro 3(3) [OF _ refl b']) simp_all
      ultimately show ?thesis
        using jn by (simp add: visit_neighbors_invalidate [OF True uC below])
    qed
  qed
qed

section \<open>EdgeTrimmer: minimum neighbours, idempotence and the clearing step\<close>

lemma recount_nbr:
  assumes wf: "wf_foundation F" and v: "v < nat (num_sites F)"
    and len: "length V = nat (num_sites F)"
  shows "recount F V (site_at F v) = length (filter (\<lambda>j. V ! j) (nbr F v))"
proof -
  have "filter (site_is_valid V) (neighbours F (site_at F v))
        = filter ((\<lambda>j. V ! j) \<circ> idx) (neighbours F (site_at F v))"
    by (rule filter_cong [OF refl])
       (use neighbours_wf(1) [OF wf v] len in \<open>simp add: site_is_valid_def\<close>)
  then show ?thesis
    by (simp add: recount_def nbr_def filter_map)
qed

text \<open>
  C1, as amended. On a Foundation that satisfies its invariant, whose neighbour relation
  is symmetric (site \<open>t\<close> occurs among the in-box neighbours of site \<open>s\<close> as often as \<open>s\<close>
  among those of \<open>t\<close>) and whose sublattices have at most 32767 hopping rules each: after
  \<^verbatim>\<open>trim_edges\<close>, every valid site that has an invalid in-box neighbour has at least
  \<open>min_neighbours\<close> in-box neighbours that are valid, counted afresh from the hopping rules
  and the final \<open>is_valid\<close>.
\<close>

theorem trim_edges_min_neighbours:
  assumes "wf_foundation F" and "symmetric_neighbours F" and "hoppings_bounded F"
    and "v < nat (num_sites F)" and "is_valid (trim_edges F) ! v"
    and "\<exists>n \<in> set (neighbours F (site_at F v)). \<not> site_is_valid (is_valid (trim_edges F)) n"
  shows "min_neighbours (lattice F) \<le> int (recount F (is_valid (trim_edges F)) (site_at F v))"
proof -
  let ?N = "nat (num_sites F)" and ?C0 = "count_neighbors F"
  let ?V = "is_valid (trim_edges F)"
  note wf = assms(1) and sym = assms(2) and b = assms(3) and v = assms(4,5)
  from trim_edges_final [OF wf] obtain C p where
    inv: "trim_inv F (is_valid F) ?C0 (?V, C) p"
    and cl: "\<forall>j < ?N. \<not> ?V ! j \<longrightarrow> C ! j = 0"
    by blast
  note D = trim_invD [OF inv]
  let ?valid = "length (filter (\<lambda>j. ?V ! j) (nbr F v))"
  let ?invalid = "length (filter (\<lambda>j. \<not> ?V ! j) (nbr F v))"
  have rc: "recount F ?V (site_at F v) = ?valid"
    using wf v(1) D(1) by (rule recount_nbr)
  have hv: "hits F p v = ?invalid"
    using wf sym b inv cl v by (rule final_hits)
  have total: "length (nbr F v) = ?valid + ?invalid"
    by (rule sum_length_filter_compl [symmetric])
  from assms(6) obtain n where n: "n \<in> set (neighbours F (site_at F v))"
    and nv: "\<not> site_is_valid ?V n" by blast
  have "idx n < length ?V" using neighbours_wf(1) [OF wf v(1) n] D(1) by simp
  with nv have "\<not> ?V ! idx n" by (simp add: site_is_valid_def)
  moreover have "idx n \<in> set (nbr F v)" using n by (simp add: nbr_def)
  ultimately have "idx n \<in> set (filter (\<lambda>j. \<not> ?V ! j) (nbr F v))" by simp
  then have pos: "1 \<le> ?invalid"
    by (metis One_nat_def Suc_leI length_pos_if_in_set)
  have "\<not> trig F ?C0 v (hits F p v)"
    using D(5) [OF v] pos hv by auto
  then have ge: "min_neighbours (lattice F) \<le> sint (?C0 ! v - word_of_nat ?invalid)"
    using pos hv by (simp add: trig_def)
  have "sint (word_of_nat (length (nbr F v)) - word_of_nat ?invalid :: int16)
        = int (length (nbr F v)) - int ?invalid"
    using nbr_bounded [OF wf b v(1)] total by (intro sint_diff_small) simp_all
  then have "sint (?C0 ! v - word_of_nat ?invalid) = int ?valid"
    using count_neighbors_nbr [OF v(1)] total by simp
  with ge rc show ?thesis by simp
qed

lemma chain_example_sym: "symmetric_neighbours chain_example"
  by code_simp

lemma chain_example_bounded: "hoppings_bounded chain_example"
  by code_simp

theorem trim_edges_min_neighbours_witness:
  "wf_foundation chain_example \<and> symmetric_neighbours chain_example
   \<and> hoppings_bounded chain_example \<and> (2::nat) < nat (num_sites chain_example)
   \<and> is_valid (trim_edges chain_example) ! 2
   \<and> \<not> site_is_valid (is_valid (trim_edges chain_example))
         \<lparr>index = (1, 0, 0), sublattice = 0, idx = 1\<rparr>
   \<and> min_neighbours (lattice chain_example)
       \<le> int (recount chain_example (is_valid (trim_edges chain_example))
                (site_at chain_example 2))"
proof -
  have v: "(2::nat) < nat (num_sites chain_example)"
    by (simp add: chain_example_def)
  have val: "is_valid (trim_edges chain_example) ! 2"
    by (simp add: chain_example_trim)
  have nb: "\<lparr>index = (1, 0, 0), sublattice = 0, idx = 1\<rparr>
            \<in> set (neighbours chain_example (site_at chain_example 2))"
    by code_simp
  have inv: "\<not> site_is_valid (is_valid (trim_edges chain_example))
               \<lparr>index = (1, 0, 0), sublattice = 0, idx = 1\<rparr>"
    by (simp add: chain_example_trim site_is_valid_def)
  from nb inv have ex: "\<exists>n \<in> set (neighbours chain_example (site_at chain_example 2)).
                          \<not> site_is_valid (is_valid (trim_edges chain_example)) n"
    by blast
  from trim_edges_min_neighbours
    [OF chain_example_wf chain_example_sym chain_example_bounded v val ex]
    chain_example_wf chain_example_sym chain_example_bounded v val inv
  show ?thesis by blast
qed

text \<open>
  C1 as stated fails on a Foundation built from a shape that contains its whole bounding
  box: on the chain with \<open>min_neighbours = 2\<close> no site is invalid, the pass calls
  \<^verbatim>\<open>clear_neighbors\<close> on no site, and the first site stays valid with one in-box
  neighbour. The Foundation satisfies its invariant, its neighbour relation is symmetric
  and its sublattice has two hopping rules.
\<close>

theorem trim_edges_min_neighbours_counterexample:
  "is_valid strict_chain_example = [True, True, True, True, True, True]
   \<and> recount strict_chain_example (is_valid strict_chain_example)
        (site_at strict_chain_example 0) = 1
   \<and> min_neighbours (lattice strict_chain_example) = 2
   \<and> wf_foundation strict_chain_example
   \<and> symmetric_neighbours strict_chain_example
   \<and> hoppings_bounded strict_chain_example"
  by code_simp

text \<open>
  C3, as amended. The pass never turns an invalid site valid, and the number of valid
  sites does not grow at any call of \<^verbatim>\<open>clear_neighbors\<close>, at any step of its loop over the
  neighbours or at any step of the loop of \<^verbatim>\<open>trim_edges\<close>. On a Foundation that satisfies
  its invariant, whose neighbour relation is symmetric and whose sublattices have at most
  32767 hopping rules each, a second \<^verbatim>\<open>trim_edges\<close> changes nothing.
\<close>

theorem trim_edges_monotone_idempotent:
  "length (is_valid (trim_edges F)) = length (is_valid F)
   \<and> (\<forall>i < length (is_valid F). is_valid (trim_edges F) ! i \<longrightarrow> is_valid F ! i)
   \<and> num_valid (is_valid (trim_edges F)) \<le> num_valid (is_valid F)
   \<and> (\<forall>s st. num_valid (fst (clear_neighbors F s st)) \<le> num_valid (fst st))
   \<and> (\<forall>s ns st. num_valid (fst (visit_neighbors F s ns st)) \<le> num_valid (fst st))
   \<and> (\<forall>s st. num_valid (fst (trim_step F s st)) \<le> num_valid (fst st))
   \<and> (wf_foundation F \<and> symmetric_neighbours F \<and> hoppings_bounded F \<longrightarrow>
        trim_edges (trim_edges F) = trim_edges F)"
proof -
  let ?st0 = "(is_valid F, count_neighbors F)"
  have m: "length (fst (fold (trim_step F) (sites F) ?st0)) = length (fst ?st0)
           \<and> (\<forall>i < length (fst ?st0). fst (fold (trim_step F) (sites F) ?st0) ! i \<longrightarrow> fst ?st0 ! i)"
    by (rule trim_fold_monotone)
  then have 1: "\<forall>i < length (is_valid F). is_valid (trim_edges F) ! i \<longrightarrow> is_valid F ! i"
    and 0: "length (is_valid (trim_edges F)) = length (is_valid F)"
    by (simp_all add: trim_edges_def)
  have 2: "num_valid (is_valid (trim_edges F)) \<le> num_valid (is_valid F)"
    using m by (intro num_valid_le) (simp_all add: trim_edges_def)
  have 3: "num_valid (fst (trim_step F s st)) \<le> num_valid (fst st)" for s st
    using clear_visit_num_valid(1) [of F s st] by (simp add: trim_step_def)
  show ?thesis
    using 0 1 2 3 clear_visit_num_valid [of F] trim_edges_idempotent_sym [of F] by blast
qed

theorem trim_edges_monotone_idempotent_witness:
  "wf_foundation chain_example \<and> symmetric_neighbours chain_example
   \<and> hoppings_bounded chain_example
   \<and> trim_edges (trim_edges chain_example) = trim_edges chain_example
   \<and> num_valid (is_valid (trim_edges chain_example)) \<le> num_valid (is_valid chain_example)
   \<and> is_valid (trim_edges chain_example) = [False, False, True, True]
   \<and> is_valid chain_example = [True, False, True, True]"
  using trim_edges_monotone_idempotent [of chain_example]
    chain_example_wf chain_example_sym chain_example_bounded chain_example_trim
  by (simp add: chain_example_def)

text \<open>
  The second half of C3 as stated fails where a hopping rule has no reverse: on three
  cells with the single rule +1 and the first site invalid, one pass leaves the last site
  valid and a second pass removes it.
\<close>

theorem trim_edges_idempotent_counterexample:
  "is_valid oneway_example = [False, True, True]
   \<and> is_valid (trim_edges oneway_example) = [False, False, True]
   \<and> is_valid (trim_edges (trim_edges oneway_example)) = [False, False, False]
   \<and> wf_foundation oneway_example
   \<and> hoppings_bounded oneway_example
   \<and> \<not> symmetric_neighbours oneway_example"
  by code_simp

text \<open>
  C2, as amended. \<^verbatim>\<open>clear_neighbors\<close> on a site whose stored count is 0 changes nothing.
  Otherwise it visits the in-box neighbours of the site in the order of the hopping rules:
  a neighbour that is invalid when visited is skipped, its count untouched; a neighbour
  that is valid when visited has its count decremented by 1, and if the count is then
  strictly below \<open>min_neighbours\<close> the neighbour is marked invalid and \<^verbatim>\<open>clear_neighbors\<close>
  recurses on it; after the last neighbour the count of the site itself is set to 0, so
  that a second invocation on the same site is a no-op. The count of a site that was
  invalid before the call, other than the site itself, is the same after the call.
\<close>

theorem clear_neighbors_correct:
  assumes "idx s < length C" and "length V = length C"
  shows "(C ! idx s = 0 \<longrightarrow> clear_neighbors F s (V, C) = (V, C))
   \<and> (C ! idx s \<noteq> 0 \<longrightarrow>
        clear_neighbors F s (V, C)
        = (fst (visit_neighbors F s (neighbours F s) (V, C)),
           (snd (visit_neighbors F s (neighbours F s) (V, C)))[idx s := 0]))
   \<and> (\<forall>n ns V' C'. \<not> site_is_valid V' n \<longrightarrow>
        visit_neighbors F s (n # ns) (V', C') = visit_neighbors F s ns (V', C'))
   \<and> (\<forall>n ns V' C'. site_is_valid V' n \<and> idx n < length C'
          \<and> \<not> sint (C' ! idx n - 1) < min_neighbours (lattice F) \<longrightarrow>
        visit_neighbors F s (n # ns) (V', C')
        = visit_neighbors F s ns (V', C'[idx n := C' ! idx n - 1]))
   \<and> (\<forall>n ns V' C'. site_is_valid V' n \<and> idx n < length C'
          \<and> sint (C' ! idx n - 1) < min_neighbours (lattice F) \<longrightarrow>
        visit_neighbors F s (n # ns) (V', C')
        = visit_neighbors F s ns
            (clear_neighbors F n (V'[idx n := False], C'[idx n := C' ! idx n - 1])))
   \<and> snd (clear_neighbors F s (V, C)) ! idx s = 0
   \<and> clear_neighbors F s (clear_neighbors F s (V, C)) = clear_neighbors F s (V, C)
   \<and> (\<forall>j < length C. \<not> V ! j \<and> j \<noteq> idx s \<longrightarrow>
        snd (clear_neighbors F s (V, C)) ! j = C ! j)"
proof (intro conjI allI impI)
  show "clear_neighbors F s (V, C) = (V, C)" if "C ! idx s = 0"
    using that by (simp add: clear_neighbors.simps)
  show "clear_neighbors F s (V, C)
        = (fst (visit_neighbors F s (neighbours F s) (V, C)),
           (snd (visit_neighbors F s (neighbours F s) (V, C)))[idx s := 0])"
    if "C ! idx s \<noteq> 0"
    using that by (simp add: clear_neighbors.simps Let_def)
  show "visit_neighbors F s (n # ns) (V', C') = visit_neighbors F s ns (V', C')"
    if "\<not> site_is_valid V' n" for n ns V' C'
    using that by (rule visit_neighbors_skip)
  show "visit_neighbors F s (n # ns) (V', C')
        = visit_neighbors F s ns (V', C'[idx n := C' ! idx n - 1])"
    if "site_is_valid V' n \<and> idx n < length C'
        \<and> \<not> sint (C' ! idx n - 1) < min_neighbours (lattice F)" for n ns V' C'
    using that by (intro visit_neighbors_decrement) simp_all
  show "visit_neighbors F s (n # ns) (V', C')
        = visit_neighbors F s ns
            (clear_neighbors F n (V'[idx n := False], C'[idx n := C' ! idx n - 1]))"
    if "site_is_valid V' n \<and> idx n < length C'
        \<and> sint (C' ! idx n - 1) < min_neighbours (lattice F)" for n ns V' C'
    using that by (intro visit_neighbors_invalidate) simp_all
  show "snd (clear_neighbors F s (V, C)) ! idx s = 0"
    using assms(1) by (rule clear_neighbors_own_count)
  show "clear_neighbors F s (clear_neighbors F s (V, C)) = clear_neighbors F s (V, C)"
    using assms(1) by (rule clear_neighbors_idempotent)
  show "snd (clear_neighbors F s (V, C)) ! j = C ! j"
    if "j < length C" "\<not> V ! j \<and> j \<noteq> idx s" for j
    using clear_visit_frame(1) [of "(V, C)" j s F] assms(2) that by simp
qed

theorem clear_neighbors_correct_witness:
  "idx (site_at chain_example 1) < length (count_neighbors chain_example)
   \<and> length (is_valid chain_example) = length (count_neighbors chain_example)
   \<and> count_neighbors chain_example = [1, 2, 2, 1]
   \<and> clear_neighbors chain_example (site_at chain_example 1)
        (is_valid chain_example, count_neighbors chain_example)
      = ([False, False, True, True], [0, 0, 1, 1])
   \<and> clear_neighbors chain_example (site_at chain_example 1)
        ([False, False, True, True], [0, 0, 1, 1])
      = ([False, False, True, True], [0, 0, 1, 1])"
proof -
  have c: "count_neighbors chain_example = [1, 2, 2, 1]"
    by code_simp
  have h: "idx (site_at chain_example 1) < length (count_neighbors chain_example)"
    "length (is_valid chain_example) = length (count_neighbors chain_example)"
    by (simp_all add: c) (simp add: chain_example_def)
  have r: "clear_neighbors chain_example (site_at chain_example 1)
             (is_valid chain_example, count_neighbors chain_example)
           = ([False, False, True, True], [0, 0, 1, 1])"
    by code_simp
  from clear_neighbors_correct [OF h, of chain_example]
  have "clear_neighbors chain_example (site_at chain_example 1)
          (clear_neighbors chain_example (site_at chain_example 1)
             (is_valid chain_example, count_neighbors chain_example))
        = clear_neighbors chain_example (site_at chain_example 1)
            (is_valid chain_example, count_neighbors chain_example)"
    by blast
  then have "clear_neighbors chain_example (site_at chain_example 1)
               ([False, False, True, True], [0, 0, 1, 1])
             = ([False, False, True, True], [0, 0, 1, 1])"
    by (simp only: r)
  with h c r show ?thesis by blast
qed

text \<open>
  C2 as stated fails on an invalid neighbour: with the first two sites of the chain invalid,
  \<^verbatim>\<open>clear_neighbors\<close> on the first site (stored count 1, its one in-box neighbour the
  second site) leaves the count of the second site at 2.
\<close>

theorem clear_neighbors_counterexample:
  "is_valid two_invalid_example = [False, False, True, True]
   \<and> count_neighbors two_invalid_example = [1, 2, 2, 1]
   \<and> map idx (neighbours two_invalid_example (site_at two_invalid_example 0)) = [1]
   \<and> clear_neighbors two_invalid_example (site_at two_invalid_example 0)
        (is_valid two_invalid_example, count_neighbors two_invalid_example)
      = ([False, False, True, True], [0, 2, 2, 1])"
  by code_simp

end
